theory Spec2Isabelle
  imports Main "HOL-Library.Word"
begin

section \<open>Common data\<close>

text \<open>
  Go's \<open>uint64\<close> is a 64-bit word: addition wraps. A \<open>bucketID\<close> is a \<open>uint64\<close>.
  A digest is a byte slice; the maps of the outstanding-requests tracker are keyed by
  \<open>string(ack.Digest)\<close>, that is by the bytes themselves.
\<close>

type_synonym u64 = "64 word"
type_synonym bucketID = u64
type_synonym bytes = "8 word list"

text \<open>
  A panic aborts the call: \<open>assertFailed\<close> panics with a message, reading a field
  through a nil pointer panics in the Go runtime, and the code calls \<open>panic\<close> itself.
\<close>

datatype panic = AssertionFailed string | NilDereference | GoPanic string

datatype 'a result = Panic panic | Return 'a

definition bindR :: "'a result \<Rightarrow> ('a \<Rightarrow> 'b result) \<Rightarrow> 'b result" where
  "bindR m f = (case m of Panic p \<Rightarrow> Panic p | Return x \<Rightarrow> f x)"

text \<open>
  The protobuf messages are declared outside the sources at hand; the records below
  have the fields the code reads. Further fields of a client or of a configuration live
  in the record extension, so that \<open>isCommitted\<close> and \<open>clientReqToBucket\<close> may depend
  on them. \<open>NumberOfBuckets\<close> and \<open>CheckpointInterval\<close> are read through the conversions
  \<open>int(...)\<close> and \<open>uint64(...)\<close>: they are signed 32-bit fields, and \<open>scast\<close> is the
  sign-extending conversion to \<open>uint64\<close>.
\<close>

record RequestAck =
  ClientId :: u64
  ReqNo :: u64
  Digest :: bytes

record NetworkState_Client =
  Id_client :: u64
  LowWatermark :: u64

record NetworkState_Config =
  NumberOfBuckets :: "32 word"
  CheckpointInterval :: "32 word"

record ('m, 'n) NetworkState =
  Config :: "'n NetworkState_Config_scheme"
  Clients :: "'m NetworkState_Client_scheme list"

section \<open>Outstanding-requests tracker (outstanding.go)\<close>

record 'm clientOutstandingReqs =
  nextReqNo :: u64
  numBuckets :: u64
  client :: "'m NetworkState_Client_scheme"

record 'm bucketOutstandingReqs =
  clients :: "u64 \<rightharpoonup> 'm clientOutstandingReqs"

text \<open>
  \<open>outstandingRequests\<close> maps a digest to a pointer to a sequence; \<open>'s\<close> is the type of
  these pointers. The sequences themselves, with everything else that
  \<open>satisfyOutstanding\<close> and \<open>allocate\<close> touch, make up a heap of type \<open>'h\<close>.

  Modelled from the spec: the type \<open>availableList\<close> behind \<open>availableIterator\<close> is not
  among the sources. The spec calls it a queue of freshly vouched acknowledgements that
  \<open>advanceRequests\<close> drains; the field holds the acknowledgements not yet drained, in
  order, so that \<open>hasNext\<close> is non-emptiness and \<open>next\<close> takes the head.
\<close>

record ('m, 's) allOutstandingReqs =
  buckets :: "bucketID \<rightharpoonup> 'm bucketOutstandingReqs"
  availableIterator :: "RequestAck list"
  correctRequests :: "bytes \<rightharpoonup> RequestAck"
  outstandingRequests :: "bytes \<rightharpoonup> 's"

text \<open>
  \<open>skipPreviouslyCommitted\<close> is a loop without a bound: it returns only when it reaches
  a request number that \<open>isCommitted\<close> rejects. \<open>None\<close> is the loop that never ends.
  \<open>isCommitted\<close> is not among the sources and is a parameter.
\<close>

partial_function (option) skipPreviouslyCommitted ::
  "(u64 \<Rightarrow> 'm NetworkState_Client_scheme \<Rightarrow> bool) \<Rightarrow> 'm clientOutstandingReqs
     \<Rightarrow> 'm clientOutstandingReqs option" where
  "skipPreviouslyCommitted isCommitted cors =
     (if \<not> isCommitted (nextReqNo cors) (client cors) then Some cors
      else skipPreviouslyCommitted isCommitted
             (cors\<lparr>nextReqNo := nextReqNo cors + numBuckets cors\<rparr>))"

text \<open>
  \<open>advanceRequests\<close>. The body of \<open>sequence.satisfyOutstanding\<close> is not among the
  sources; it is the parameter \<open>satisfyOutstanding\<close>, acting on the heap and free to
  panic. The loop state is the action set built so far, the tracker, the heap, and the
  calls made to \<open>satisfyOutstanding\<close> so far, in order.
\<close>

type_synonym ('a, 'm, 's, 'h) advanceState =
  "'a list \<times> ('m, 's) allOutstandingReqs \<times> 'h \<times> ('s \<times> RequestAck) list"

definition advanceRequestsBody ::
  "('s \<Rightarrow> RequestAck \<Rightarrow> 'h \<Rightarrow> ('a list \<times> 'h) result) \<Rightarrow> RequestAck
     \<Rightarrow> ('a, 'm, 's, 'h) advanceState \<Rightarrow> ('a, 'm, 's, 'h) advanceState result" where
  "advanceRequestsBody satisfyOutstanding ack st =
     (case st of (actions, ao, h, calls) \<Rightarrow>
        let ao1 = ao\<lparr>availableIterator := tl (availableIterator ao)\<rparr>;
            key = Digest ack
        in case outstandingRequests ao1 key of
             Some seq \<Rightarrow>
               bindR (satisfyOutstanding seq ack h) (\<lambda>(acts, h').
                 Return (actions @ acts,
                         ao1\<lparr>outstandingRequests := (outstandingRequests ao1)(key := None)\<rparr>,
                         h', calls @ [(seq, ack)]))
           | None \<Rightarrow>
               Return (actions,
                       ao1\<lparr>correctRequests := (correctRequests ao1)(key \<mapsto> ack)\<rparr>,
                       h, calls))"

fun advanceRequestsLoop ::
  "('s \<Rightarrow> RequestAck \<Rightarrow> 'h \<Rightarrow> ('a list \<times> 'h) result) \<Rightarrow> RequestAck list
     \<Rightarrow> ('a, 'm, 's, 'h) advanceState \<Rightarrow> ('a, 'm, 's, 'h) advanceState result" where
  "advanceRequestsLoop satisfyOutstanding [] st = Return st"
| "advanceRequestsLoop satisfyOutstanding (ack # rest) st =
     bindR (advanceRequestsBody satisfyOutstanding ack st)
       (advanceRequestsLoop satisfyOutstanding rest)"

definition advanceRequests ::
  "('s \<Rightarrow> RequestAck \<Rightarrow> 'h \<Rightarrow> ('a list \<times> 'h) result) \<Rightarrow> ('m, 's) allOutstandingReqs \<Rightarrow> 'h
     \<Rightarrow> ('a, 'm, 's, 'h) advanceState result" where
  "advanceRequests satisfyOutstanding ao h =
     advanceRequestsLoop satisfyOutstanding (availableIterator ao) ([], ao, h, [])"

text \<open>
  \<open>applyAcks\<close>. An error return is a value; the tracker is returned with it, since the
  writes made before the error stay. The loop works on the bucket found at the start
  (\<open>bo\<close>), on the two digest maps of the tracker and on the local set
  \<open>outstandingReqs\<close>.
\<close>

datatype error = NoSuchClient | UnexpectedReqNo u64 bucketID u64 u64

type_synonym ('m, 's) acksState =
  "'m bucketOutstandingReqs \<times> (bytes \<rightharpoonup> RequestAck) \<times> (bytes \<rightharpoonup> 's) \<times> bytes set"

definition applyAcksBody ::
  "(u64 \<Rightarrow> 'm NetworkState_Client_scheme \<Rightarrow> bool) \<Rightarrow> bucketID \<Rightarrow> 's \<Rightarrow> RequestAck
     \<Rightarrow> ('m, 's) acksState \<Rightarrow> (error + ('m, 's) acksState) option" where
  "applyAcksBody isCommitted bucket seq req st =
     (case st of (bo, correct, outstanding, outstandingReqs) \<Rightarrow>
        case clients bo (ClientId req) of
          None \<Rightarrow> Some (Inl NoSuchClient)
        | Some co \<Rightarrow>
            if nextReqNo co \<noteq> ReqNo req
            then Some (Inl (UnexpectedReqNo (ClientId req) bucket (nextReqNo co) (ReqNo req)))
            else
              let key = Digest req;
                  (correct', outstanding', outstandingReqs') =
                    (case correct key of
                       Some _ \<Rightarrow> (correct(key := None), outstanding, outstandingReqs)
                     | None \<Rightarrow> (correct, outstanding(key \<mapsto> seq),
                                insert key outstandingReqs))
              in case skipPreviouslyCommitted isCommitted
                        (co\<lparr>nextReqNo := nextReqNo co + numBuckets co\<rparr>) of
                   None \<Rightarrow> None
                 | Some co' \<Rightarrow>
                     Some (Inr (bo\<lparr>clients := (clients bo)(ClientId req \<mapsto> co')\<rparr>,
                                correct', outstanding', outstandingReqs')))"

fun applyAcksLoop ::
  "(u64 \<Rightarrow> 'm NetworkState_Client_scheme \<Rightarrow> bool) \<Rightarrow> bucketID \<Rightarrow> 's \<Rightarrow> RequestAck list
     \<Rightarrow> ('m, 's) acksState \<Rightarrow> (('m, 's) acksState \<times> error option) option" where
  "applyAcksLoop isCommitted bucket seq [] st = Some (st, None)"
| "applyAcksLoop isCommitted bucket seq (req # batch) st =
     (case applyAcksBody isCommitted bucket seq req st of
        None \<Rightarrow> None
      | Some (Inl err) \<Rightarrow> Some (st, Some err)
      | Some (Inr st') \<Rightarrow> applyAcksLoop isCommitted bucket seq batch st')"

text \<open>
  The body of \<open>sequence.allocate\<close> is not among the sources; it is the parameter
  \<open>allocate\<close>. The first component of the result is the tracker after the call.
\<close>

definition applyAcks ::
  "(u64 \<Rightarrow> 'm NetworkState_Client_scheme \<Rightarrow> bool)
     \<Rightarrow> ('s \<Rightarrow> RequestAck list \<Rightarrow> bytes set \<Rightarrow> 'h \<Rightarrow> ('a list \<times> 'h) result)
     \<Rightarrow> bucketID \<Rightarrow> 's \<Rightarrow> RequestAck list \<Rightarrow> ('m, 's) allOutstandingReqs \<Rightarrow> 'h
     \<Rightarrow> (('m, 's) allOutstandingReqs \<times> 'h \<times> (error + 'a list)) result option" where
  "applyAcks isCommitted allocate bucket seq batch ao h =
     (case buckets ao bucket of
        None \<Rightarrow> Some (Panic (AssertionFailed
                  ''told to apply acks for bucket which does not exist''))
      | Some bo \<Rightarrow>
          (case applyAcksLoop isCommitted bucket seq batch
                  (bo, correctRequests ao, outstandingRequests ao, {}) of
             None \<Rightarrow> None
           | Some ((bo', correct', outstanding', outstandingReqs), e) \<Rightarrow>
               let ao' = ao\<lparr>buckets := (buckets ao)(bucket \<mapsto> bo'),
                            correctRequests := correct',
                            outstandingRequests := outstanding'\<rparr>
               in (case e of
                     Some err \<Rightarrow> Some (Return (ao', h, Inl err))
                   | None \<Rightarrow>
                       Some (bindR (allocate seq batch outstandingReqs h)
                               (\<lambda>(acts, h'). Return (ao', h', Inr acts))))))"

text \<open>
  \<open>newOutstandingReqs\<close>. \<open>clientReqToBucket\<close> is not among the sources and is a
  parameter. \<open>firstUncommitted\<close> is the inner loop over \<open>j\<close>: the first request number
  of the window that maps to bucket \<open>i\<close>, or 0, the zero value of the variable, when the
  loop ends without one. \<open>numBuckets\<close> is \<open>int(NumberOfBuckets)\<close>; \<open>bucketID(numBuckets)\<close>
  and \<open>uint64(NumberOfBuckets)\<close> extend the sign.
\<close>

definition firstUncommitted ::
  "(u64 \<Rightarrow> u64 \<Rightarrow> 'n NetworkState_Config_scheme \<Rightarrow> bucketID) \<Rightarrow> 'n NetworkState_Config_scheme
     \<Rightarrow> bucketID \<Rightarrow> 'm NetworkState_Client_scheme \<Rightarrow> u64" where
  "firstUncommitted clientReqToBucket config i cl =
     (case find (\<lambda>j. clientReqToBucket (Id_client cl) (LowWatermark cl + of_nat j) config = i)
             [0..<nat (sint (NumberOfBuckets config))] of
        None \<Rightarrow> 0
      | Some j \<Rightarrow> LowWatermark cl + of_nat j)"

fun newClients ::
  "(u64 \<Rightarrow> 'm NetworkState_Client_scheme \<Rightarrow> bool)
     \<Rightarrow> (u64 \<Rightarrow> u64 \<Rightarrow> 'n NetworkState_Config_scheme \<Rightarrow> bucketID)
     \<Rightarrow> 'n NetworkState_Config_scheme \<Rightarrow> bucketID \<Rightarrow> 'm NetworkState_Client_scheme list
     \<Rightarrow> (u64 \<rightharpoonup> 'm clientOutstandingReqs) \<Rightarrow> (u64 \<rightharpoonup> 'm clientOutstandingReqs) option" where
  "newClients isCommitted clientReqToBucket config i [] m = Some m"
| "newClients isCommitted clientReqToBucket config i (cl # rest) m =
     (case skipPreviouslyCommitted isCommitted
             \<lparr>nextReqNo = firstUncommitted clientReqToBucket config i cl,
              numBuckets = scast (NumberOfBuckets config),
              client = cl\<rparr> of
        None \<Rightarrow> None
      | Some cors \<Rightarrow>
          newClients isCommitted clientReqToBucket config i rest (m(Id_client cl \<mapsto> cors)))"

fun newBuckets ::
  "(u64 \<Rightarrow> 'm NetworkState_Client_scheme \<Rightarrow> bool)
     \<Rightarrow> (u64 \<Rightarrow> u64 \<Rightarrow> 'n NetworkState_Config_scheme \<Rightarrow> bucketID)
     \<Rightarrow> ('m, 'n) NetworkState \<Rightarrow> bucketID list
     \<Rightarrow> (bucketID \<rightharpoonup> 'm bucketOutstandingReqs)
     \<Rightarrow> (bucketID \<rightharpoonup> 'm bucketOutstandingReqs) option" where
  "newBuckets isCommitted clientReqToBucket networkState [] m = Some m"
| "newBuckets isCommitted clientReqToBucket networkState (i # rest) m =
     (case newClients isCommitted clientReqToBucket (Config networkState) i
             (Clients networkState) Map.empty of
        None \<Rightarrow> None
      | Some cs \<Rightarrow>
          newBuckets isCommitted clientReqToBucket networkState rest (m(i \<mapsto> \<lparr>clients = cs\<rparr>)))"

text \<open>
  \<open>availableList\<close> is the client tracker's list after \<open>resetIterator\<close>: all of its
  acknowledgements are still to be drained. The action set of the closing
  \<open>advanceRequests\<close> is dropped, as in the source.
\<close>

definition newOutstandingReqs ::
  "('s \<Rightarrow> RequestAck \<Rightarrow> 'h \<Rightarrow> ('a list \<times> 'h) result)
     \<Rightarrow> (u64 \<Rightarrow> 'm NetworkState_Client_scheme \<Rightarrow> bool)
     \<Rightarrow> (u64 \<Rightarrow> u64 \<Rightarrow> 'n NetworkState_Config_scheme \<Rightarrow> bucketID)
     \<Rightarrow> RequestAck list \<Rightarrow> ('m, 'n) NetworkState \<Rightarrow> 'h
     \<Rightarrow> (('m, 's) allOutstandingReqs \<times> 'h) result option" where
  "newOutstandingReqs satisfyOutstanding isCommitted clientReqToBucket availableList networkState h =
     (case newBuckets isCommitted clientReqToBucket networkState
             (map of_nat [0..<unat (scast (NumberOfBuckets (Config networkState)) :: u64)])
             Map.empty of
        None \<Rightarrow> None
      | Some bs \<Rightarrow>
          Some (bindR (advanceRequests satisfyOutstanding
                         \<lparr>buckets = bs, availableIterator = availableList,
                          correctRequests = Map.empty, outstandingRequests = Map.empty\<rparr> h)
                  (\<lambda>(acts, ao, h', calls). Return (ao, h'))))"

section \<open>Assertion helpers (statemachine.go)\<close>

text \<open>
  The helpers take their operands as \<open>interface{}\<close> and compare them with \<open>==\<close>. An
  interface value is the nil interface (what the untyped \<open>nil\<close> of a call becomes) or a
  value boxed together with its type; a pointer variable that is nil is boxed like any
  other pointer. Two interface values are equal when both are the nil interface or both
  box equal values of one type. \<open>'a\<close> is the type of the boxed values of one call.
\<close>

datatype 'a interface = NilInterface | Boxed 'a

definition assertEqualf :: "'a interface \<Rightarrow> 'a interface \<Rightarrow> string \<Rightarrow> unit result" where
  "assertEqualf lhs rhs text = (if lhs \<noteq> rhs then Panic (AssertionFailed text) else Return ())"

definition assertNotEqualf :: "'a interface \<Rightarrow> 'a interface \<Rightarrow> string \<Rightarrow> unit result" where
  "assertNotEqualf lhs rhs text = (if lhs = rhs then Panic (AssertionFailed text) else Return ())"

section \<open>The persisted log (persisted.go)\<close>

text \<open>
  A log record is one of eight kinds, or has no kind set. The code at hand reads the
  sequence numbers of checkpoint and new-epoch records; \<open>'x\<close> stands for every payload
  it passes on unread. \<open>NetworkState\<close> of a \<open>CEntry\<close> is a pointer.
\<close>

record 'x CEntry =
  SeqNo :: u64
  CheckpointValue :: bytes
  NetworkState :: "'x option"

record 'x NEntry =
  SeqNo :: u64
  EpochConfig :: 'x

datatype 'x Persistent =
    Persistent_PEntry 'x
  | Persistent_QEntry 'x
  | Persistent_CEntry "'x CEntry"
  | Persistent_NEntry "'x NEntry"
  | Persistent_FEntry 'x
  | Persistent_ECEntry 'x
  | Persistent_TEntry 'x
  | Persistent_Suspect 'x
  | Persistent_unset

text \<open>
  Modelled from the spec: \<open>actionSet\<close> and its methods \<open>concat\<close>, \<open>isEmpty\<close> and
  \<open>persist\<close> are not among the sources. By the spec an action batch holds write-ahead-log
  writes and truncations, commit notifications and the requests to the outside (sends,
  hash requests, state transfer). An action set is the list of its actions in the order
  they were added: \<open>concat\<close> appends, \<open>isEmpty\<close> is the empty list, \<open>persist\<close> adds
  one write.
\<close>

datatype 'x action =
    Write_Truncate u64
  | Write_Append u64 "'x Persistent"
  | Commit 'x
  | Other 'x

text \<open>
  The log is a singly linked list from \<open>logHead\<close> to \<open>logTail\<close>; the field \<open>logHead\<close>
  holds the entries from the head on, each with its index, and is empty when both
  pointers are nil. The logger is left out: it changes neither state nor actions.
\<close>

record 'x persisted =
  nextIndex :: u64
  logHead :: "(u64 \<times> 'x Persistent) list"

definition newPersisted :: "'x persisted" where
  "newPersisted = \<lparr>nextIndex = 0, logHead = []\<rparr>"

definition appendInitialLoad :: "u64 \<Rightarrow> 'x Persistent \<Rightarrow> 'x persisted \<Rightarrow> 'x persisted result" where
  "appendInitialLoad index data p =
     (let p1 = (if logHead p = [] then p\<lparr>nextIndex := index, logHead := [(index, data)]\<rparr>
                else p\<lparr>logHead := logHead p @ [(index, data)]\<rparr>)
      in if nextIndex p1 \<noteq> index then Panic (GoPanic ''WAL indexes out of order!'')
         else Return (p1\<lparr>nextIndex := index + 1\<rparr>))"

definition appendLogEntry ::
  "'x Persistent \<Rightarrow> 'x persisted \<Rightarrow> ('x action list \<times> 'x persisted) result" where
  "appendLogEntry entry p =
     (if logHead p = [] then Panic NilDereference
      else Return ([Write_Append (nextIndex p) entry],
                   p\<lparr>logHead := logHead p @ [(nextIndex p, entry)],
                     nextIndex := nextIndex p + 1\<rparr>))"

definition addCEntry ::
  "'x CEntry \<Rightarrow> 'x persisted \<Rightarrow> ('x action list \<times> 'x persisted) result" where
  "addCEntry cEntry p =
     bindR (assertNotEqualf (Boxed (CEntry.NetworkState cEntry)) NilInterface
              ''network config must be set'')
       (\<lambda>_. appendLogEntry (Persistent_CEntry cEntry) p)"

text \<open>
  \<open>persisted.truncate\<close>, here \<open>truncatePersisted\<close> (every record of this theory has a
  \<open>truncate\<close> of its own), walks from the head. \<open>atHead\<close> says that the entry looked at is the head
  itself (\<open>p.logHead == logEntry\<close>). The walk ends with the index and the entries of a
  new head, or with nothing when no entry is kept or the entry kept is the head.
\<close>

fun truncateLoop ::
  "u64 \<Rightarrow> bool \<Rightarrow> (u64 \<times> 'x Persistent) list \<Rightarrow> (u64 \<times> (u64 \<times> 'x Persistent) list) option" where
  "truncateLoop lowWatermark atHead [] = None"
| "truncateLoop lowWatermark atHead ((index, entry) # rest) =
     (if (case entry of
            Persistent_CEntry c \<Rightarrow> CEntry.SeqNo c < lowWatermark
          | Persistent_NEntry n \<Rightarrow> NEntry.SeqNo n \<le> lowWatermark
          | _ \<Rightarrow> True)
      then truncateLoop lowWatermark False rest
      else if atHead then None
      else Some (index, (index, entry) # rest))"

definition truncatePersisted :: "u64 \<Rightarrow> 'x persisted \<Rightarrow> 'x action list \<times> 'x persisted" where
  "truncatePersisted lowWatermark p =
     (case truncateLoop lowWatermark True (logHead p) of
        None \<Rightarrow> ([], p)
      | Some (index, entries) \<Rightarrow> ([Write_Truncate index], p\<lparr>logHead := entries\<rparr>))"

section \<open>The state machine (statemachine.go)\<close>

text \<open>
  A call of a method on a component is recorded with the method's name and its
  \<open>uint64\<close> arguments, so that the order and the number of such calls can be stated.
\<close>

datatype call = Call string "u64 list"

text \<open>
  \<open>recoverLog\<close> iterates from the head with the handlers \<open>onCEntry\<close> and \<open>onFEntry\<close>;
  the other handlers and \<open>shouldExit\<close> are nil, and \<open>iterate\<close> panics on a record with
  no kind. The walk follows the \<open>next\<close> pointers of the entries, which \<open>truncate\<close>
  leaves alone: it runs over the entries that were there at the start.
\<close>

fun recoverLogLoop ::
  "(u64 \<times> 'x Persistent) list \<Rightarrow> 'x CEntry option \<Rightarrow> 'x action list \<Rightarrow> 'x persisted
     \<Rightarrow> call list \<times> ('x CEntry option \<times> 'x action list \<times> 'x persisted) result" where
  "recoverLogLoop [] lastCEntry actions p = ([], Return (lastCEntry, actions, p))"
| "recoverLogLoop ((index, entry) # rest) lastCEntry actions p =
     (case entry of
        Persistent_CEntry cEntry \<Rightarrow> recoverLogLoop rest (Some cEntry) actions p
      | Persistent_FEntry fEntry \<Rightarrow>
          (case assertNotEqualf (Boxed lastCEntry) NilInterface
                  ''FEntry without corresponding CEntry, log is corrupt'' of
             Panic e \<Rightarrow> ([], Panic e)
           | Return _ \<Rightarrow>
               (case lastCEntry of
                  None \<Rightarrow> ([], Panic NilDereference)
                | Some c \<Rightarrow>
                    (case truncatePersisted (CEntry.SeqNo c) p of
                       (acts, p') \<Rightarrow>
                         (case recoverLogLoop rest lastCEntry (actions @ acts) p' of
                            (calls, r) \<Rightarrow>
                              (Call ''persisted.truncate'' [CEntry.SeqNo c] # calls, r)))))
      | Persistent_unset \<Rightarrow> ([], Panic (GoPanic ''unsupported log entry type''))
      | _ \<Rightarrow> recoverLogLoop rest lastCEntry actions p)"

definition recoverLog ::
  "'x persisted \<Rightarrow> call list \<times> ('x action list \<times> 'x persisted) result" where
  "recoverLog p =
     (case recoverLogLoop (logHead p) None [] p of
        (calls, r) \<Rightarrow>
          (calls,
           bindR r (\<lambda>(lastCEntry, actions, p').
             bindR (assertNotEqualf (Boxed lastCEntry) NilInterface
                      ''found no checkpoints in the log'')
               (\<lambda>_. Return (actions, p')))))"

text \<open>
  The components other than the persisted log (commit state, client tracker, client
  hash disseminator, node buffers, batch tracker, checkpoint tracker, epoch tracker) are
  not among the sources. They hold pointers to each other and to the log, so a method
  of any of them may change all of them: their joint state is one value of type \<open>'w\<close>,
  and a method is a function on the pair of the log and that state, free to panic.
  The fields that \<open>applyEvent\<close> and \<open>processResults\<close> read are accessors.
\<close>

record ('x, 'w) components =
  persisted :: "'x persisted"
  world :: 'w

record 'x CheckpointResult =
  SeqNo :: u64
  NetworkState :: 'x

datatype 'x HashResult =
    HashResult_Batch bytes u64 u64 'x
  | HashResult_EpochChange bytes 'x
  | HashResult_VerifyBatch bytes 'x
  | HashResult_unset bytes

record 'x ActionResults =
  Checkpoints :: "'x CheckpointResult list"
  Digests :: "'x HashResult list"

datatype 'x Msg =
    Msg_RequestAck 'x
  | Msg_FetchRequest 'x
  | Msg_ForwardRequest 'x
  | Msg_Checkpoint 'x
  | Msg_FetchBatch 'x
  | Msg_ForwardBatch 'x
  | Msg_Suspect 'x
  | Msg_EpochChange 'x
  | Msg_EpochChangeAck 'x
  | Msg_NewEpoch 'x
  | Msg_NewEpochEcho 'x
  | Msg_NewEpochReady 'x
  | Msg_Preprepare 'x
  | Msg_Prepare 'x
  | Msg_Commit 'x
  | Msg_unset

datatype 'x StateEvent =
    StateEvent_Initialize 'x
  | StateEvent_LoadEntry u64 "'x Persistent"
  | StateEvent_CompleteInitialization
  | StateEvent_Tick
  | StateEvent_Step u64 "'x Msg"
  | StateEvent_AddResults "'x ActionResults"
  | StateEvent_AddClientResults 'x
  | StateEvent_Transfer "'x CEntry"
  | StateEvent_ActionsReceived
  | StateEvent_ClientActionsReceived
  | StateEvent_unset

type_synonym ('r, 'x, 'w) componentMethod = "('x, 'w) components \<Rightarrow> ('r \<times> ('x, 'w) components) result"

record ('x, 'w) ops =
  newComponents :: "'x \<Rightarrow> 'w"
  cs_transferring :: "'w \<Rightarrow> bool"
  cs_lowWatermark :: "'w \<Rightarrow> u64"
  cs_stopAtSeqNo :: "'w \<Rightarrow> u64"
  cs_CheckpointInterval :: "'w \<Rightarrow> 32 word"
  cpt_garbageCollectable :: "'w \<Rightarrow> bool"
  cpt_CheckpointInterval :: "'w \<Rightarrow> 32 word"
  et_activeEpochConfig :: "'w \<Rightarrow> 'x option"
  et_fetching :: "'w \<Rightarrow> bool"
  bt_hasFetchInFlight :: "'w \<Rightarrow> bool"
  chd_tick :: "('x action list, 'x, 'w) componentMethod"
  et_tick :: "('x action list, 'x, 'w) componentMethod"
  chd_step :: "u64 \<Rightarrow> 'x Msg \<Rightarrow> ('x action list, 'x, 'w) componentMethod"
  cpt_step :: "u64 \<Rightarrow> 'x Msg \<Rightarrow> (unit, 'x, 'w) componentMethod"
  bt_step :: "u64 \<Rightarrow> 'x Msg \<Rightarrow> ('x action list, 'x, 'w) componentMethod"
  et_step :: "u64 \<Rightarrow> 'x Msg \<Rightarrow> ('x action list, 'x, 'w) componentMethod"
  chd_applyNewRequests :: "'x \<Rightarrow> ('x action list, 'x, 'w) componentMethod"
  cs_applyCheckpointResult ::
    "'x option \<Rightarrow> 'x CheckpointResult \<Rightarrow> ('x action list, 'x, 'w) componentMethod"
  ct_allocate :: "u64 \<Rightarrow> 'x \<Rightarrow> (unit, 'x, 'w) componentMethod"
  chd_allocate :: "u64 \<Rightarrow> 'x \<Rightarrow> ('x action list, 'x, 'w) componentMethod"
  bt_addBatch :: "u64 \<Rightarrow> bytes \<Rightarrow> 'x \<Rightarrow> (unit, 'x, 'w) componentMethod"
  et_applyBatchHashResult :: "u64 \<Rightarrow> u64 \<Rightarrow> bytes \<Rightarrow> ('x action list, 'x, 'w) componentMethod"
  et_applyEpochChangeDigest :: "'x \<Rightarrow> bytes \<Rightarrow> ('x action list, 'x, 'w) componentMethod"
  bt_applyVerifyBatchHashResult :: "bytes \<Rightarrow> 'x \<Rightarrow> (unit, 'x, 'w) componentMethod"
  et_fetchNewEpochState :: "('x action list, 'x, 'w) componentMethod"
  cpt_garbageCollect :: "(u64, 'x, 'w) componentMethod"
  bt_truncate :: "u64 \<Rightarrow> (unit, 'x, 'w) componentMethod"
  et_moveLowWatermark :: "u64 \<Rightarrow> ('x action list, 'x, 'w) componentMethod"
  cs_drain :: "('x list, 'x, 'w) componentMethod"
  et_advanceState :: "('x action list, 'x, 'w) componentMethod"
  cs_reinitialize :: "('x action list, 'x, 'w) componentMethod"
  ct_reinitialize :: "(unit, 'x, 'w) componentMethod"
  chd_reinitialize :: "('x action list, 'x, 'w) componentMethod"
  cpt_reinitialize :: "(unit, 'x, 'w) componentMethod"
  bt_reinitialize :: "(unit, 'x, 'w) componentMethod"
  et_reinitialize :: "('x action list, 'x, 'w) componentMethod"

text \<open>
  A piece of the state machine's code runs on the components and yields the calls it
  made, in order, and how it ended: with a panic, with a value and the new components,
  or not at all (\<open>None\<close>: the loop of \<open>applyEvent\<close> was still running when the steps
  allowed to it were used up).
\<close>

type_synonym ('r, 'x, 'w) prog =
  "('x, 'w) components \<Rightarrow> call list \<times> ('r \<times> ('x, 'w) components) result option"

definition returnP :: "'r \<Rightarrow> ('r, 'x, 'w) prog" where
  "returnP r = (\<lambda>c. ([], Some (Return (r, c))))"

definition panicP :: "panic \<Rightarrow> ('r, 'x, 'w) prog" where
  "panicP e = (\<lambda>c. ([], Some (Panic e)))"

definition bindP :: "('r, 'x, 'w) prog \<Rightarrow> ('r \<Rightarrow> ('q, 'x, 'w) prog) \<Rightarrow> ('q, 'x, 'w) prog" where
  "bindP m f = (\<lambda>c.
     case m c of
       (tr, None) \<Rightarrow> (tr, None)
     | (tr, Some (Panic e)) \<Rightarrow> (tr, Some (Panic e))
     | (tr, Some (Return (r, c'))) \<Rightarrow> (case f r c' of (tr', res) \<Rightarrow> (tr @ tr', res)))"

definition callP :: "string \<Rightarrow> u64 list \<Rightarrow> ('r, 'x, 'w) componentMethod \<Rightarrow> ('r, 'x, 'w) prog" where
  "callP name args m = (\<lambda>c. ([Call name args], Some (m c)))"

definition readW :: "('w \<Rightarrow> 'r) \<Rightarrow> ('r, 'x, 'w) prog" where
  "readW f = (\<lambda>c. ([], Some (Return (f (world c), c))))"

definition liftR :: "'r result \<Rightarrow> ('r, 'x, 'w) prog" where
  "liftR r = (\<lambda>c. ([], Some (bindR r (\<lambda>x. Return (x, c)))))"

definition onPersisted ::
  "('x persisted \<Rightarrow> ('r \<times> 'x persisted) result) \<Rightarrow> ('r, 'x, 'w) prog" where
  "onPersisted f = (\<lambda>c.
     ([], Some (bindR (f (persisted c)) (\<lambda>(r, p'). Return (r, c\<lparr>persisted := p'\<rparr>)))))"

definition step :: "('x, 'w) ops \<Rightarrow> u64 \<Rightarrow> 'x Msg \<Rightarrow> ('x action list, 'x, 'w) prog" where
  "step ops source msg =
     (case msg of
        Msg_RequestAck _ \<Rightarrow> callP ''clientHashDisseminator.step'' [source] (chd_step ops source msg)
      | Msg_FetchRequest _ \<Rightarrow> callP ''clientHashDisseminator.step'' [source] (chd_step ops source msg)
      | Msg_ForwardRequest _ \<Rightarrow> callP ''clientHashDisseminator.step'' [source] (chd_step ops source msg)
      | Msg_Checkpoint _ \<Rightarrow>
          bindP (callP ''checkpointTracker.step'' [source] (cpt_step ops source msg))
            (\<lambda>_. returnP [])
      | Msg_FetchBatch _ \<Rightarrow> callP ''batchTracker.step'' [source] (bt_step ops source msg)
      | Msg_ForwardBatch _ \<Rightarrow> callP ''batchTracker.step'' [source] (bt_step ops source msg)
      | Msg_unset \<Rightarrow> panicP (GoPanic ''unexpected bad message type'')
      | _ \<Rightarrow> callP ''epochTracker.step'' [source] (et_step ops source msg))"

text \<open>The body of the loop over \<open>results.Checkpoints\<close> in \<open>processResults\<close>.\<close>

definition processCheckpointResult ::
  "('x, 'w) ops \<Rightarrow> 'x CheckpointResult \<Rightarrow> ('x action list, 'x, 'w) prog" where
  "processCheckpointResult ops checkpointResult =
     bindP (readW (cs_lowWatermark ops)) (\<lambda>lowWatermark.
       if CheckpointResult.SeqNo checkpointResult < lowWatermark then returnP []
       else
         bindP (readW (cs_CheckpointInterval ops)) (\<lambda>interval.
         let expectedSeqNo = lowWatermark + scast interval in
         bindP (liftR (assertEqualf (Boxed expectedSeqNo)
                         (Boxed (CheckpointResult.SeqNo checkpointResult))
                         ''new checkpoint results muts be exactly one checkpoint interval after the last''))
           (\<lambda>_.
         bindP (readW (et_activeEpochConfig ops)) (\<lambda>epochConfig.
         bindP (readW (cs_stopAtSeqNo ops)) (\<lambda>prevStopAtSeqNo.
         bindP (callP ''commitState.applyCheckpointResult''
                  [CheckpointResult.SeqNo checkpointResult]
                  (cs_applyCheckpointResult ops epochConfig checkpointResult)) (\<lambda>acts.
         bindP (readW (cs_stopAtSeqNo ops)) (\<lambda>stopAtSeqNo.
           if prevStopAtSeqNo < stopAtSeqNo
           then
             bindP (callP ''clientTracker.allocate'' [CheckpointResult.SeqNo checkpointResult]
                      (ct_allocate ops (CheckpointResult.SeqNo checkpointResult)
                         (CheckpointResult.NetworkState checkpointResult))) (\<lambda>_.
             bindP (callP ''clientHashDisseminator.allocate''
                      [CheckpointResult.SeqNo checkpointResult]
                      (chd_allocate ops (CheckpointResult.SeqNo checkpointResult)
                         (CheckpointResult.NetworkState checkpointResult))) (\<lambda>acts'.
             returnP (acts @ acts')))
           else returnP acts)))))))"

fun processCheckpoints ::
  "('x, 'w) ops \<Rightarrow> 'x CheckpointResult list \<Rightarrow> ('x action list, 'x, 'w) prog" where
  "processCheckpoints ops [] = returnP []"
| "processCheckpoints ops (checkpointResult # rest) =
     bindP (processCheckpointResult ops checkpointResult) (\<lambda>acts.
     bindP (processCheckpoints ops rest) (\<lambda>acts'. returnP (acts @ acts')))"

text \<open>The body of the loop over \<open>results.Digests\<close> in \<open>processResults\<close>.\<close>

definition processHashResult ::
  "('x, 'w) ops \<Rightarrow> 'x HashResult \<Rightarrow> ('x action list, 'x, 'w) prog" where
  "processHashResult ops hashResult =
     (case hashResult of
        HashResult_Batch digest epoch seqNo requestAcks \<Rightarrow>
          bindP (callP ''batchTracker.addBatch'' [seqNo] (bt_addBatch ops seqNo digest requestAcks))
            (\<lambda>_. callP ''epochTracker.applyBatchHashResult'' [epoch, seqNo]
                    (et_applyBatchHashResult ops epoch seqNo digest))
      | HashResult_EpochChange digest epochChange \<Rightarrow>
          callP ''epochTracker.applyEpochChangeDigest'' []
            (et_applyEpochChangeDigest ops epochChange digest)
      | HashResult_VerifyBatch digest verifyBatch \<Rightarrow>
          bindP (callP ''batchTracker.applyVerifyBatchHashResult'' []
                   (bt_applyVerifyBatchHashResult ops digest verifyBatch)) (\<lambda>_.
          bindP (readW (bt_hasFetchInFlight ops)) (\<lambda>inFlight.
          bindP (readW (et_fetching ops)) (\<lambda>fetching.
            if \<not> inFlight \<and> fetching
            then callP ''epochTarget.fetchNewEpochState'' [] (et_fetchNewEpochState ops)
            else returnP [])))
      | HashResult_unset digest \<Rightarrow> panicP (GoPanic ''no hash result type set''))"

fun processDigests ::
  "('x, 'w) ops \<Rightarrow> 'x HashResult list \<Rightarrow> ('x action list, 'x, 'w) prog" where
  "processDigests ops [] = returnP []"
| "processDigests ops (hashResult # rest) =
     bindP (processHashResult ops hashResult) (\<lambda>acts.
     bindP (processDigests ops rest) (\<lambda>acts'. returnP (acts @ acts')))"

definition processResults ::
  "('x, 'w) ops \<Rightarrow> 'x ActionResults \<Rightarrow> ('x action list, 'x, 'w) prog" where
  "processResults ops results =
     bindP (processCheckpoints ops (Checkpoints results)) (\<lambda>acts.
     bindP (processDigests ops (Digests results)) (\<lambda>acts'. returnP (acts @ acts')))"

definition reinitialize :: "('x, 'w) ops \<Rightarrow> ('x action list, 'x, 'w) prog" where
  "reinitialize ops =
     bindP (\<lambda>c. case recoverLog (persisted c) of
                  (calls, r) \<Rightarrow>
                    (calls, Some (bindR r (\<lambda>(acts, p'). Return (acts, c\<lparr>persisted := p'\<rparr>)))))
       (\<lambda>acts1.
     bindP (callP ''commitState.reinitialize'' [] (cs_reinitialize ops)) (\<lambda>acts2.
     bindP (callP ''clientTracker.reinitialize'' [] (ct_reinitialize ops)) (\<lambda>_.
     bindP (callP ''clientHashDisseminator.reinitialize'' [] (chd_reinitialize ops)) (\<lambda>acts3.
     bindP (callP ''checkpointTracker.reinitialize'' [] (cpt_reinitialize ops)) (\<lambda>_.
     bindP (callP ''batchTracker.reinitialize'' [] (bt_reinitialize ops)) (\<lambda>_.
     bindP (callP ''epochTracker.reinitialize'' [] (et_reinitialize ops)) (\<lambda>acts4.
     returnP (acts1 @ acts2 @ acts3 @ acts4))))))))"

text \<open>
  The block of \<open>applyEvent\<close> guarded by \<open>checkpointTracker.state == cpsGarbageCollectable\<close>.
  The action set that \<open>persisted.truncate\<close> returns there is dropped.
\<close>

definition garbageCollectBlock :: "('x, 'w) ops \<Rightarrow> ('x action list, 'x, 'w) prog" where
  "garbageCollectBlock ops =
     bindP (readW (cpt_garbageCollectable ops)) (\<lambda>collectable.
       if collectable
       then
         bindP (callP ''checkpointTracker.garbageCollect'' [] (cpt_garbageCollect ops)) (\<lambda>newLow.
         bindP (\<lambda>c. case truncatePersisted newLow (persisted c) of
                      (acts, p') \<Rightarrow>
                        ([Call ''persisted.truncate'' [newLow]],
                         Some (Return ((), c\<lparr>persisted := p'\<rparr>)))) (\<lambda>_.
         bindP (readW (cpt_CheckpointInterval ops)) (\<lambda>interval.
         bindP (if newLow > scast interval
                then callP ''batchTracker.truncate'' [newLow - scast interval]
                       (bt_truncate ops (newLow - scast interval))
                else returnP ()) (\<lambda>_.
         callP ''epochTracker.moveLowWatermark'' [newLow] (et_moveLowWatermark ops newLow)))))
       else returnP [])"

text \<open>
  The closing \<open>for\<close> loop of \<open>applyEvent\<close>, which ends when \<open>advanceState\<close> returns no
  action. The first argument bounds the number of rounds.
\<close>

fun drainLoop :: "nat \<Rightarrow> ('x, 'w) ops \<Rightarrow> ('x action list, 'x, 'w) prog" where
  "drainLoop 0 ops = (\<lambda>c. ([], None))"
| "drainLoop (Suc fuel) ops =
     bindP (callP ''commitState.drain'' [] (cs_drain ops)) (\<lambda>commits.
     bindP (callP ''epochTracker.advanceState'' [] (et_advanceState ops)) (\<lambda>loopActions.
       if loopActions = [] then returnP (map Commit commits)
       else bindP (drainLoop fuel ops) (\<lambda>acts.
              returnP (map Commit commits @ loopActions @ acts))))"

datatype stateMachineState = smUninitialized | smLoadingPersisted | smInitialized

text \<open>
  The component pointers of a \<open>StateMachine\<close> are nil until \<open>initialize\<close> sets them, all
  at once: \<open>components\<close> is \<open>None\<close> until then.
\<close>

record ('x, 'w) StateMachine =
  state :: stateMachineState
  myConfig :: "'x option"
  components :: "('x, 'w) components option"

type_synonym ('x, 'w) outcome =
  "call list \<times> ('x action list \<times> ('x, 'w) StateMachine) result option"

definition runOn ::
  "('x, 'w) StateMachine \<Rightarrow> ('x action list, 'x, 'w) prog \<Rightarrow> ('x, 'w) outcome" where
  "runOn sm m =
     (case components sm of
        None \<Rightarrow> ([], Some (Panic NilDereference))
      | Some c \<Rightarrow>
          (case m c of
             (tr, None) \<Rightarrow> (tr, None)
           | (tr, Some (Panic e)) \<Rightarrow> (tr, Some (Panic e))
           | (tr, Some (Return (acts, c'))) \<Rightarrow>
               (tr, Some (Return (acts, sm\<lparr>components := Some c'\<rparr>)))))"

definition initialize :: "('x, 'w) ops \<Rightarrow> 'x \<Rightarrow> ('x, 'w) StateMachine \<Rightarrow> ('x, 'w) outcome" where
  "initialize ops parameters sm =
     (case assertEqualf (Boxed (state sm)) (Boxed smUninitialized)
             ''state machine has already been initialized'' of
        Panic e \<Rightarrow> ([], Some (Panic e))
      | Return _ \<Rightarrow>
          ([], Some (Return ([],
             sm\<lparr>myConfig := Some parameters, state := smLoadingPersisted,
                components := Some \<lparr>persisted = newPersisted,
                                     world = newComponents ops parameters\<rparr>\<rparr>))))"

definition applyPersisted ::
  "u64 \<Rightarrow> 'x Persistent \<Rightarrow> ('x, 'w) StateMachine \<Rightarrow> ('x, 'w) outcome" where
  "applyPersisted index data sm =
     (case assertEqualf (Boxed (state sm)) (Boxed smLoadingPersisted)
             ''state machine has already finished loading persisted data'' of
        Panic e \<Rightarrow> ([], Some (Panic e))
      | Return _ \<Rightarrow>
          runOn sm (onPersisted (\<lambda>p. bindR (appendInitialLoad index data p)
                                        (\<lambda>p'. Return ([], p')))))"

definition completeInitialization ::
  "('x, 'w) ops \<Rightarrow> ('x, 'w) StateMachine \<Rightarrow> ('x, 'w) outcome" where
  "completeInitialization ops sm =
     (case assertEqualf (Boxed (state sm)) (Boxed smLoadingPersisted)
             ''state machine has already finished loading persisted data'' of
        Panic e \<Rightarrow> ([], Some (Panic e))
      | Return _ \<Rightarrow> runOn (sm\<lparr>state := smInitialized\<rparr>) (reinitialize ops))"

text \<open>
  \<open>applyEvent\<close>. \<open>afterEvent\<close> is what follows the \<open>switch\<close> for the events that do not
  return from inside it: the garbage-collection block and the closing loop.
\<close>

definition afterEvent ::
  "nat \<Rightarrow> ('x, 'w) ops \<Rightarrow> ('x action list, 'x, 'w) prog \<Rightarrow> ('x action list, 'x, 'w) prog" where
  "afterEvent fuel ops handled =
     bindP handled (\<lambda>acts.
     bindP (garbageCollectBlock ops) (\<lambda>acts'.
     bindP (drainLoop fuel ops) (\<lambda>acts''. returnP (acts @ acts' @ acts''))))"

definition assertInitialized :: "('x, 'w) StateMachine \<Rightarrow> unit result" where
  "assertInitialized sm =
     assertEqualf (Boxed (state sm)) (Boxed smInitialized)
       ''cannot apply events to an uninitialized state machine''"

definition applyEvent ::
  "nat \<Rightarrow> ('x, 'w) ops \<Rightarrow> 'x StateEvent \<Rightarrow> ('x, 'w) StateMachine \<Rightarrow> ('x, 'w) outcome" where
  "applyEvent fuel ops stateEvent sm =
     (case stateEvent of
        StateEvent_Initialize parameters \<Rightarrow>
          (case initialize ops parameters sm of
             (tr, Some (Return (_, sm'))) \<Rightarrow> (tr, Some (Return ([], sm')))
           | other \<Rightarrow> other)
      | StateEvent_LoadEntry index data \<Rightarrow>
          (case applyPersisted index data sm of
             (tr, Some (Return (_, sm'))) \<Rightarrow> (tr, Some (Return ([], sm')))
           | other \<Rightarrow> other)
      | StateEvent_CompleteInitialization \<Rightarrow> completeInitialization ops sm
      | StateEvent_Tick \<Rightarrow>
          (case assertInitialized sm of
             Panic e \<Rightarrow> ([], Some (Panic e))
           | Return _ \<Rightarrow>
               runOn sm (afterEvent fuel ops
                 (bindP (callP ''clientHashDisseminator.tick'' [] (chd_tick ops)) (\<lambda>acts.
                  bindP (callP ''epochTracker.tick'' [] (et_tick ops)) (\<lambda>acts'.
                  returnP (acts @ acts'))))))
      | StateEvent_Step source msg \<Rightarrow>
          (case assertInitialized sm of
             Panic e \<Rightarrow> ([], Some (Panic e))
           | Return _ \<Rightarrow> runOn sm (afterEvent fuel ops (step ops source msg)))
      | StateEvent_AddResults results \<Rightarrow>
          (case assertInitialized sm of
             Panic e \<Rightarrow> ([], Some (Panic e))
           | Return _ \<Rightarrow> runOn sm (afterEvent fuel ops (processResults ops results)))
      | StateEvent_AddClientResults persistedReqs \<Rightarrow>
          (case assertInitialized sm of
             Panic e \<Rightarrow> ([], Some (Panic e))
           | Return _ \<Rightarrow>
               runOn sm (afterEvent fuel ops
                 (callP ''clientHashDisseminator.applyNewRequests'' []
                    (chd_applyNewRequests ops persistedReqs))))
      | StateEvent_Transfer cEntry \<Rightarrow>
          runOn sm (afterEvent fuel ops
            (bindP (readW (cs_transferring ops)) (\<lambda>transferring.
             bindP (liftR (assertEqualf (Boxed transferring) (Boxed True)
                             ''state transfer event received but the state machine did not request transfer''))
               (\<lambda>_.
             bindP (onPersisted (addCEntry cEntry)) (\<lambda>acts.
             bindP (reinitialize ops) (\<lambda>acts'. returnP (acts @ acts')))))))
      | StateEvent_ActionsReceived \<Rightarrow> ([], Some (Return ([], sm)))
      | StateEvent_ClientActionsReceived \<Rightarrow> ([], Some (Return ([], sm)))
      | StateEvent_unset \<Rightarrow> ([], Some (Panic (GoPanic ''unknown state event type''))))"

section \<open>Predicates on the outstanding-requests tracker\<close>

text \<open>
  The statements about \<open>applyAcks\<close>, \<open>advanceRequests\<close> and \<open>newOutstandingReqs\<close> are
  phrased with the predicates of this section. None of them is part of the program.
\<close>

text \<open>
  The two tests at the head of the loop body of \<open>applyAcks\<close>: the acknowledgement names a
  client that the bucket does not track, or a request number other than the one expected
  next from that client.
\<close>

definition ackMismatch :: "'m bucketOutstandingReqs \<Rightarrow> RequestAck \<Rightarrow> bool" where
  "ackMismatch bo req =
     (case clients bo (ClientId req) of
        None \<Rightarrow> True
      | Some co \<Rightarrow> nextReqNo co \<noteq> ReqNo req)"

text \<open>
  \<open>skipPreviouslyCommitted\<close> advances by \<open>numBuckets\<close> until it meets a request number that
  is not committed. It returns for every client of the bucket, from every starting
  point, exactly when such a request number lies ahead on every stride.
\<close>

definition skipsReturn ::
  "(u64 \<Rightarrow> 'm NetworkState_Client_scheme \<Rightarrow> bool) \<Rightarrow> 'm bucketOutstandingReqs \<Rightarrow> bool" where
  "skipsReturn isCommitted bo =
     (\<forall>cid co. clients bo cid = Some co \<longrightarrow>
        (\<forall>n. \<exists>k. \<not> isCommitted (n + of_nat k * numBuckets co) (client co)))"

text \<open>
  No digest is a key of both \<open>correctRequests\<close> and \<open>outstandingRequests\<close>.
\<close>

definition digestMapsDisjoint :: "('m, 's) allOutstandingReqs \<Rightarrow> bool" where
  "digestMapsDisjoint ao = (dom (correctRequests ao) \<inter> dom (outstandingRequests ao) = {})"

text \<open>
  What the tracker expects, stated from the batch alone. \<open>nextFree\<close> is the first request
  number among \<open>reqNo\<close>, \<open>reqNo + numBuckets\<close>, \<open>reqNo + 2 * numBuckets\<close>, ... that is not
  committed. Once a client's acknowledgement has been accepted, the request number
  expected next from that client is the first free one after it on the client's stride;
  before that it is the \<open>nextReqNo\<close> the tracker holds (\<open>nextExpected\<close>, over the
  acknowledgements of one client; \<open>expectedReqNo\<close>, over those of a batch, \<open>None\<close> for a
  client the bucket does not track).
\<close>

definition nextFree ::
  "(u64 \<Rightarrow> 'm NetworkState_Client_scheme \<Rightarrow> bool) \<Rightarrow> 'm clientOutstandingReqs \<Rightarrow> u64 \<Rightarrow> u64" where
  "nextFree isCommitted co reqNo =
     reqNo + of_nat (LEAST k. \<not> isCommitted (reqNo + of_nat k * numBuckets co) (client co))
               * numBuckets co"

definition nextExpected ::
  "(u64 \<Rightarrow> 'm NetworkState_Client_scheme \<Rightarrow> bool) \<Rightarrow> 'm clientOutstandingReqs
     \<Rightarrow> RequestAck list \<Rightarrow> u64" where
  "nextExpected isCommitted co accepted =
     (case rev accepted of
        [] \<Rightarrow> nextReqNo co
      | ack # _ \<Rightarrow> nextFree isCommitted co (ReqNo ack + numBuckets co))"

definition expectedReqNo ::
  "(u64 \<Rightarrow> 'm NetworkState_Client_scheme \<Rightarrow> bool) \<Rightarrow> 'm bucketOutstandingReqs
     \<Rightarrow> RequestAck list \<Rightarrow> u64 \<Rightarrow> u64 option" where
  "expectedReqNo isCommitted bo accepted clientId =
     map_option
       (\<lambda>co. nextExpected isCommitted co (filter (\<lambda>ack. ClientId ack = clientId) accepted))
       (clients bo clientId)"

text \<open>
  Every acknowledgement of the batch carries the request number expected from its client
  after the acknowledgements before it. \<open>rejection\<close> is the error for an acknowledgement
  that does not.
\<close>

definition batchMatches ::
  "(u64 \<Rightarrow> 'm NetworkState_Client_scheme \<Rightarrow> bool) \<Rightarrow> 'm bucketOutstandingReqs
     \<Rightarrow> RequestAck list \<Rightarrow> bool" where
  "batchMatches isCommitted bo batch =
     (\<forall>k < length batch.
        expectedReqNo isCommitted bo (take k batch) (ClientId (batch ! k))
          = Some (ReqNo (batch ! k)))"

definition rejection ::
  "(u64 \<Rightarrow> 'm NetworkState_Client_scheme \<Rightarrow> bool) \<Rightarrow> bucketID \<Rightarrow> 'm bucketOutstandingReqs
     \<Rightarrow> RequestAck list \<Rightarrow> RequestAck \<Rightarrow> error" where
  "rejection isCommitted bucket bo accepted req =
     (case expectedReqNo isCommitted bo accepted (ClientId req) of
        None \<Rightarrow> NoSuchClient
      | Some reqNo \<Rightarrow> UnexpectedReqNo (ClientId req) bucket reqNo (ReqNo req))"

text \<open>
  The digests of a batch that are left outstanding: those not vouched correct before
  the batch, and those that occur in it more than once (the first occurrence uses up
  the voucher).
\<close>

definition outstandingDigests :: "(bytes \<rightharpoonup> RequestAck) \<Rightarrow> RequestAck list \<Rightarrow> bytes set" where
  "outstandingDigests correct batch =
     {d \<in> Digest ` set batch.
        correct d = None \<or> 1 < length (filter (\<lambda>ack. Digest ack = d) batch)}"

text \<open>
  The tracker after a batch of matching acknowledgements: every client of the bucket
  expects its next request number, the digests of the batch are gone from
  \<open>correctRequests\<close>, and the outstanding ones are registered against the sequence.
\<close>

definition clientsAfter ::
  "(u64 \<Rightarrow> 'm NetworkState_Client_scheme \<Rightarrow> bool) \<Rightarrow> 'm bucketOutstandingReqs
     \<Rightarrow> RequestAck list \<Rightarrow> 'm bucketOutstandingReqs" where
  "clientsAfter isCommitted bo accepted =
     bo\<lparr>clients := (\<lambda>clientId.
           map_option
             (\<lambda>co. co\<lparr>nextReqNo :=
                        nextExpected isCommitted co
                          (filter (\<lambda>ack. ClientId ack = clientId) accepted)\<rparr>)
             (clients bo clientId))\<rparr>"

definition trackerAfter ::
  "(u64 \<Rightarrow> 'm NetworkState_Client_scheme \<Rightarrow> bool) \<Rightarrow> bucketID \<Rightarrow> 's \<Rightarrow> RequestAck list
     \<Rightarrow> ('m, 's) allOutstandingReqs \<Rightarrow> ('m, 's) allOutstandingReqs" where
  "trackerAfter isCommitted bucket seq accepted ao =
     ao\<lparr>buckets := (case buckets ao bucket of
                      None \<Rightarrow> buckets ao
                    | Some bo \<Rightarrow> (buckets ao)(bucket \<mapsto> clientsAfter isCommitted bo accepted)),
        correctRequests :=
          (\<lambda>d. if d \<in> Digest ` set accepted then None else correctRequests ao d),
        outstandingRequests :=
          (\<lambda>d. if d \<in> outstandingDigests (correctRequests ao) accepted then Some seq
               else outstandingRequests ao d)\<rparr>"

text \<open>
  \<open>clientReqToBucket\<close> is declared outside the sources at hand. The constructor relies on
  two facts about it, for the client at hand. The \<open>NumberOfBuckets\<close> request numbers that
  start at the low watermark fall into pairwise different buckets, every bucket among
  them (\<open>bucketsCoverWindow\<close>). And the bucket of a request number repeats with period
  \<open>NumberOfBuckets\<close>, as far as the search goes: from the low watermark up to a given
  request number (\<open>bucketsRepeatUpTo\<close>).
\<close>

definition bucketsCoverWindow ::
  "(u64 \<Rightarrow> u64 \<Rightarrow> 'n NetworkState_Config_scheme \<Rightarrow> bucketID) \<Rightarrow> 'n NetworkState_Config_scheme
     \<Rightarrow> 'm NetworkState_Client_scheme \<Rightarrow> bool" where
  "bucketsCoverWindow clientReqToBucket config cl =
     (let n = nat (sint (NumberOfBuckets config)) in
        (\<forall>j j'. j < n \<and> j' < n
             \<and> clientReqToBucket (Id_client cl) (LowWatermark cl + of_nat j) config
                 = clientReqToBucket (Id_client cl) (LowWatermark cl + of_nat j') config
           \<longrightarrow> j = j')
      \<and> (\<forall>b. b < of_nat n \<longrightarrow>
            (\<exists>j<n. clientReqToBucket (Id_client cl) (LowWatermark cl + of_nat j) config = b)))"

definition bucketsRepeatUpTo ::
  "(u64 \<Rightarrow> u64 \<Rightarrow> 'n NetworkState_Config_scheme \<Rightarrow> bucketID) \<Rightarrow> 'n NetworkState_Config_scheme
     \<Rightarrow> 'm NetworkState_Client_scheme \<Rightarrow> u64 \<Rightarrow> bool" where
  "bucketsRepeatUpTo clientReqToBucket config cl upTo =
     (let n = nat (sint (NumberOfBuckets config)) in
        \<forall>r. LowWatermark cl \<le> r \<and> unat r + n \<le> unat upTo \<longrightarrow>
          clientReqToBucket (Id_client cl) (r + of_nat n) config
            = clientReqToBucket (Id_client cl) r config)"

text \<open>
  Request number \<open>r\<close> is at or above the low watermark of the client, maps to bucket
  \<open>b\<close> and is not committed; \<open>firstUncommittedInBucket\<close> says that it is the smallest
  such number.
\<close>

definition uncommittedInBucket ::
  "(u64 \<Rightarrow> 'm NetworkState_Client_scheme \<Rightarrow> bool)
     \<Rightarrow> (u64 \<Rightarrow> u64 \<Rightarrow> 'n NetworkState_Config_scheme \<Rightarrow> bucketID)
     \<Rightarrow> 'n NetworkState_Config_scheme \<Rightarrow> 'm NetworkState_Client_scheme \<Rightarrow> bucketID \<Rightarrow> u64
     \<Rightarrow> bool" where
  "uncommittedInBucket isCommitted clientReqToBucket config cl b r =
     (LowWatermark cl \<le> r \<and> clientReqToBucket (Id_client cl) r config = b
      \<and> \<not> isCommitted r cl)"

definition firstUncommittedInBucket ::
  "(u64 \<Rightarrow> 'm NetworkState_Client_scheme \<Rightarrow> bool)
     \<Rightarrow> (u64 \<Rightarrow> u64 \<Rightarrow> 'n NetworkState_Config_scheme \<Rightarrow> bucketID)
     \<Rightarrow> 'n NetworkState_Config_scheme \<Rightarrow> 'm NetworkState_Client_scheme \<Rightarrow> bucketID \<Rightarrow> u64
     \<Rightarrow> bool" where
  "firstUncommittedInBucket isCommitted clientReqToBucket config cl b r =
     (uncommittedInBucket isCommitted clientReqToBucket config cl b r
      \<and> (\<forall>r'. uncommittedInBucket isCommitted clientReqToBucket config cl b r' \<longrightarrow> r \<le> r'))"

section \<open>Predicates on the persisted log\<close>

text \<open>
  What the recovery walk sees of a log: its \<open>FEntry\<close> positions and, at each of them, the
  checkpoint entry read last.
\<close>

text \<open>
  \<open>mostRecentCEntry\<close> is the value of \<open>lastCEntry\<close> after the walk has read the given
  entries. \<open>truncationPoints\<close> lists, for each \<open>FEntry\<close> in order, the sequence number of
  the checkpoint entry read last before it. A log is well formed when every entry has a
  type and every \<open>FEntry\<close> comes after some \<open>CEntry\<close>.
\<close>

definition isFEntry :: "'x Persistent \<Rightarrow> bool" where
  "isFEntry entry = (case entry of Persistent_FEntry _ \<Rightarrow> True | _ \<Rightarrow> False)"

definition mostRecentCEntry :: "(u64 \<times> 'x Persistent) list \<Rightarrow> 'x CEntry option" where
  "mostRecentCEntry entries =
     foldl (\<lambda>found entry. case snd entry of Persistent_CEntry c \<Rightarrow> Some c | _ \<Rightarrow> found)
       None entries"

definition truncationPoints :: "(u64 \<times> 'x Persistent) list \<Rightarrow> u64 list" where
  "truncationPoints entries =
     concat (map (\<lambda>k. case mostRecentCEntry (take k entries) of
                        Some c \<Rightarrow> [CEntry.SeqNo c]
                      | None \<Rightarrow> [])
               (filter (\<lambda>k. isFEntry (snd (entries ! k))) [0..<length entries]))"

definition wellFormedLog :: "(u64 \<times> 'x Persistent) list \<Rightarrow> bool" where
  "wellFormedLog entries =
     (\<forall>k < length entries.
        snd (entries ! k) \<noteq> Persistent_unset
        \<and> (isFEntry (snd (entries ! k)) \<longrightarrow> mostRecentCEntry (take k entries) \<noteq> None))"

text \<open>
  What a truncation at a low watermark does, stated on the list of entries: it keeps the
  log from the first checkpoint entry at or above the low watermark, or the first
  \<open>NEntry\<close> above it. There is an action, and a new head, only when such an entry exists
  and is not the head already. \<open>truncations\<close> applies the truncations at the given low
  watermarks one after the other and collects their actions.
\<close>

definition keptAt :: "u64 \<Rightarrow> 'x Persistent \<Rightarrow> bool" where
  "keptAt lowWatermark entry =
     (case entry of
        Persistent_CEntry c \<Rightarrow> lowWatermark \<le> CEntry.SeqNo c
      | Persistent_NEntry n \<Rightarrow> lowWatermark < NEntry.SeqNo n
      | _ \<Rightarrow> False)"

definition truncationOf :: "u64 \<Rightarrow> 'x persisted \<Rightarrow> 'x action list \<times> 'x persisted" where
  "truncationOf lowWatermark p =
     (let kept = dropWhile (\<lambda>e. \<not> keptAt lowWatermark (snd e)) (logHead p)
      in if kept = [] \<or> kept = logHead p then ([], p)
         else ([Write_Truncate (fst (hd kept))], p\<lparr>logHead := kept\<rparr>))"

definition truncations :: "u64 list \<Rightarrow> 'x persisted \<Rightarrow> 'x action list \<times> 'x persisted" where
  "truncations points p =
     foldl (\<lambda>(actions, q) lowWatermark.
              case truncationOf lowWatermark q of (acts, q') \<Rightarrow> (actions @ acts, q'))
       ([], p) points"

section \<open>Predicates on call traces\<close>

text \<open>
  A trace is the list of component calls one event makes, in order. The predicates below
  select calls by the name of the method called.
\<close>

text \<open>
  The method a call names, and the calls of a trace that name a given method.
  \<open>callsWithin N m\<close>: whatever the state, \<open>m\<close> calls only methods of \<open>N\<close>.
\<close>

fun callName :: "call \<Rightarrow> string" where
  "callName (Call name args) = name"

definition callsWithin :: "string set \<Rightarrow> ('r, 'x, 'w) prog \<Rightarrow> bool" where
  "callsWithin N m = (\<forall>c. callName ` set (fst (m c)) \<subseteq> N)"

text \<open>
  The methods called after the \<open>switch\<close> of \<open>applyEvent\<close>: those of the
  garbage-collection block (\<open>gcNames\<close>) and those of the closing loop (\<open>loopNames\<close>).
\<close>

definition lateNames :: "string set" where
  "lateNames = {''checkpointTracker.garbageCollect'', ''batchTracker.truncate'',
                ''epochTracker.moveLowWatermark'', ''commitState.drain'',
                ''epochTracker.advanceState''}"

definition callsOf :: "string \<Rightarrow> call list \<Rightarrow> call list" where
  "callsOf name tr = filter (\<lambda>c. callName c = name) tr"

definition gcNames :: "string set" where
  "gcNames = {''checkpointTracker.garbageCollect'', ''persisted.truncate'',
              ''batchTracker.truncate'', ''epochTracker.moveLowWatermark''}"

definition loopNames :: "string set" where
  "loopNames = {''commitState.drain'', ''epochTracker.advanceState''}"

text \<open>
  The shape of every trace of \<open>applyEvent\<close>: calls of the event's own handler, then calls
  of the garbage-collection block, each method at most once, then calls of the closing
  loop.
\<close>

definition gcShape :: "call list \<Rightarrow> bool" where
  "gcShape tr = (\<exists>h g l. tr = h @ g @ l
      \<and> callName ` set h \<subseteq> - lateNames
      \<and> distinct (map callName g) \<and> callName ` set g \<subseteq> gcNames
      \<and> callName ` set l \<subseteq> loopNames)"

section \<open>Concrete instances\<close>

text \<open>
  Small trackers, logs and a state machine with stub components, on which the theorems
  are evaluated.
\<close>

text \<open>
  One client, number 7, in a single bucket; request number 1 counts as committed.
  \<open>exAllocate\<close> and \<open>exSatisfy\<close> stand for the two methods of a sequence: each returns one
  action and counts the calls in the heap.
\<close>

definition exClient :: NetworkState_Client where
  "exClient = \<lparr>Id_client = 7, LowWatermark = 0\<rparr>"

definition exBucket :: "unit bucketOutstandingReqs" where
  "exBucket = \<lparr>clients = [7 \<mapsto> \<lparr>nextReqNo = 0, numBuckets = 1, client = exClient\<rparr>]\<rparr>"

definition exTracker :: "(unit, nat) allOutstandingReqs" where
  "exTracker = \<lparr>buckets = [0 \<mapsto> exBucket], availableIterator = [],
                correctRequests = Map.empty, outstandingRequests = Map.empty\<rparr>"

definition exCommitted :: "u64 \<Rightarrow> NetworkState_Client \<Rightarrow> bool" where
  "exCommitted reqNo cl = (reqNo = 1)"

definition exAllocate ::
  "nat \<Rightarrow> RequestAck list \<Rightarrow> bytes set \<Rightarrow> nat \<Rightarrow> (string list \<times> nat) result" where
  "exAllocate seq batch outstandingReqs h = Return ([''allocate''], Suc h)"

definition exSatisfy :: "nat \<Rightarrow> RequestAck \<Rightarrow> nat \<Rightarrow> (string list \<times> nat) result" where
  "exSatisfy seq ack h = Return ([''satisfied''], Suc h)"

definition exAck :: "u64 \<Rightarrow> bytes \<Rightarrow> RequestAck" where
  "exAck reqNo digest = \<lparr>ClientId = 7, ReqNo = reqNo, Digest = digest\<rparr>"

text \<open>
  The same client in a bucket with stride 2, a tracker in which digest \<open>[1]\<close> is vouched
  correct, request number 2 committed, and an \<open>allocate\<close> that returns the set of
  outstanding digests it is given.
\<close>

definition exStrideBucket :: "unit bucketOutstandingReqs" where
  "exStrideBucket = \<lparr>clients = [7 \<mapsto> \<lparr>nextReqNo = 0, numBuckets = 2, client = exClient\<rparr>]\<rparr>"

definition exVouched :: "(unit, nat) allOutstandingReqs" where
  "exVouched = \<lparr>buckets = [0 \<mapsto> exStrideBucket], availableIterator = [],
                correctRequests = [[1] \<mapsto> exAck 0 [1]], outstandingRequests = Map.empty\<rparr>"

definition exCommittedTwo :: "u64 \<Rightarrow> NetworkState_Client \<Rightarrow> bool" where
  "exCommittedTwo reqNo cl = (reqNo = 2)"

definition exRecord ::
  "nat \<Rightarrow> RequestAck list \<Rightarrow> bytes set \<Rightarrow> nat \<Rightarrow> (bytes set list \<times> nat) result" where
  "exRecord seq batch outstandingReqs h = Return ([outstandingReqs], Suc h)"

text \<open>
  A tracker with digest \<open>[9]\<close> outstanding against sequence 3, and three available
  acknowledgements, the first two with that digest.
\<close>

definition exPending :: "(unit, nat) allOutstandingReqs" where
  "exPending = \<lparr>buckets = [0 \<mapsto> exBucket],
                availableIterator = [exAck 0 [9], exAck 0 [9], exAck 1 [8]],
                correctRequests = Map.empty, outstandingRequests = [[9] \<mapsto> 3]\<rparr>"

text \<open>
  Stub components. The commit state has a low watermark and a stop sequence number, the
  checkpoint tracker becomes collectable on a checkpoint message, and the epoch tracker
  reports progress for a given number of rounds.
\<close>

record exWorld =
  exLowWatermark :: u64
  exStopAtSeqNo :: u64
  exCollectable :: bool
  exRounds :: nat

definition exOps :: "(unit, exWorld) ops" where
  "exOps = \<lparr>
     newComponents = (\<lambda>_. \<lparr>exLowWatermark = 0, exStopAtSeqNo = 0, exCollectable = False, exRounds = 0\<rparr>),
     cs_transferring = (\<lambda>w. False),
     cs_lowWatermark = exLowWatermark,
     cs_stopAtSeqNo = exStopAtSeqNo,
     cs_CheckpointInterval = (\<lambda>w. 5),
     cpt_garbageCollectable = exCollectable,
     cpt_CheckpointInterval = (\<lambda>w. 5),
     et_activeEpochConfig = (\<lambda>w. None),
     et_fetching = (\<lambda>w. False),
     bt_hasFetchInFlight = (\<lambda>w. False),
     chd_tick = (\<lambda>c. Return ([], c)),
     et_tick = (\<lambda>c. Return ([], c)),
     chd_step = (\<lambda>source msg c. Return ([], c)),
     cpt_step = (\<lambda>source msg c. Return ((), c\<lparr>world := (world c)\<lparr>exCollectable := True\<rparr>\<rparr>)),
     bt_step = (\<lambda>source msg c. Return ([], c)),
     et_step = (\<lambda>source msg c. Return ([], c)),
     chd_applyNewRequests = (\<lambda>reqs c. Return ([], c)),
     cs_applyCheckpointResult = (\<lambda>epochConfig r c.
        Return ([], c\<lparr>world := (world c)\<lparr>exStopAtSeqNo := CheckpointResult.SeqNo r + 5\<rparr>\<rparr>)),
     ct_allocate = (\<lambda>seqNo ns c. Return ((), c)),
     chd_allocate = (\<lambda>seqNo ns c. Return ([], c)),
     bt_addBatch = (\<lambda>seqNo digest acks c. Return ((), c)),
     et_applyBatchHashResult = (\<lambda>epoch seqNo digest c. Return ([], c)),
     et_applyEpochChangeDigest = (\<lambda>epochChange digest c. Return ([], c)),
     bt_applyVerifyBatchHashResult = (\<lambda>digest verifyBatch c. Return ((), c)),
     et_fetchNewEpochState = (\<lambda>c. Return ([], c)),
     cpt_garbageCollect = (\<lambda>c.
        Return (exStopAtSeqNo (world c),
                c\<lparr>world := (world c)\<lparr>exCollectable := False,
                                      exLowWatermark := exStopAtSeqNo (world c)\<rparr>\<rparr>)),
     bt_truncate = (\<lambda>seqNo c. Return ((), c)),
     et_moveLowWatermark = (\<lambda>seqNo c. Return ([], c)),
     cs_drain = (\<lambda>c. Return ([], c)),
     et_advanceState = (\<lambda>c.
        if exRounds (world c) = 0 then Return ([], c)
        else Return ([Other ()], c\<lparr>world := (world c)\<lparr>exRounds := exRounds (world c) - 1\<rparr>\<rparr>)),
     cs_reinitialize = (\<lambda>c. Return ([], c)),
     ct_reinitialize = (\<lambda>c. Return ((), c)),
     chd_reinitialize = (\<lambda>c. Return ([], c)),
     cpt_reinitialize = (\<lambda>c. Return ((), c)),
     bt_reinitialize = (\<lambda>c. Return ((), c)),
     et_reinitialize = (\<lambda>c. Return ([], c))\<rparr>"

definition exComponents :: "(unit, exWorld) components" where
  "exComponents = \<lparr>persisted = \<lparr>nextIndex = 1,
                     logHead = [(0, Persistent_CEntry
                                      \<lparr>CEntry.SeqNo = 0, CheckpointValue = [],
                                       NetworkState = Some ()\<rparr>)]\<rparr>,
                   world = \<lparr>exLowWatermark = 10, exStopAtSeqNo = 15, exCollectable = False,
                            exRounds = 1\<rparr>\<rparr>"

definition exMachine :: "(unit, exWorld) StateMachine" where
  "exMachine = \<lparr>state = smInitialized, myConfig = Some (), components = Some exComponents\<rparr>"

text \<open>
  A checkpoint result at a sequence number, and an \<open>AddResults\<close> event with checkpoint
  results only.
\<close>

definition exResult :: "u64 \<Rightarrow> unit CheckpointResult" where
  "exResult seqNo = \<lparr>CheckpointResult.SeqNo = seqNo, NetworkState = ()\<rparr>"

definition exResults :: "unit CheckpointResult list \<Rightarrow> unit ActionResults" where
  "exResults checkpoints = \<lparr>Checkpoints = checkpoints, Digests = []\<rparr>"

text \<open>
  Two logs: a checkpoint at sequence number 0 followed by an \<open>FEntry\<close>, and the same with
  a second checkpoint at sequence number 5 in between.
\<close>

definition exCEntry :: "u64 \<Rightarrow> unit CEntry" where
  "exCEntry seqNo = \<lparr>CEntry.SeqNo = seqNo, CheckpointValue = [], NetworkState = Some ()\<rparr>"

definition exLog :: "unit persisted" where
  "exLog = \<lparr>nextIndex = 2,
            logHead = [(0, Persistent_CEntry (exCEntry 0)), (1, Persistent_FEntry ())]\<rparr>"

definition exLongLog :: "unit persisted" where
  "exLongLog = \<lparr>nextIndex = 3,
                logHead = [(0, Persistent_CEntry (exCEntry 0)),
                           (1, Persistent_CEntry (exCEntry 5)),
                           (2, Persistent_FEntry ())]\<rparr>"

text \<open>
  A network state with three buckets and one client with low watermark 4. The bucket of
  a request is the sum of client id and request number, in \<open>uint64\<close> arithmetic, modulo
  the number of buckets; request numbers below 6 count as committed.
\<close>

definition exBucketOf :: "u64 \<Rightarrow> u64 \<Rightarrow> NetworkState_Config \<Rightarrow> bucketID" where
  "exBucketOf clientId reqNo config = (clientId + reqNo) mod scast (NumberOfBuckets config)"

definition exNetworkState :: "(unit, unit) NetworkState" where
  "exNetworkState = \<lparr>Config = \<lparr>NumberOfBuckets = 3, CheckpointInterval = 5\<rparr>,
                     Clients = [\<lparr>Id_client = 7, LowWatermark = 4\<rparr>]\<rparr>"

definition exCommittedBelow :: "u64 \<Rightarrow> NetworkState_Client \<Rightarrow> bool" where
  "exCommittedBelow reqNo cl = (reqNo < 6)"

section \<open>Skipping committed request numbers\<close>

lemma skip_keeps_aux:
  assumes "skipPreviouslyCommitted isC co = Some co'"
  shows "numBuckets co' = numBuckets co \<and> client co' = client co
           \<and> \<not> isC (nextReqNo co') (client co')"
proof (rule skipPreviouslyCommitted.raw_induct
         [where P = "\<lambda>i c y. numBuckets y = numBuckets c \<and> client y = client c
                        \<and> \<not> i (nextReqNo y) (client y)", OF _ assms])
  fix f :: "(u64 \<Rightarrow> 'a NetworkState_Client_scheme \<Rightarrow> bool) \<Rightarrow> 'a clientOutstandingReqs
              \<Rightarrow> 'a clientOutstandingReqs option"
  fix i c y
  assume IH: "\<And>i c y. f i c = Some y \<Longrightarrow> numBuckets y = numBuckets c \<and> client y = client c
                        \<and> \<not> i (nextReqNo y) (client y)"
    and eq: "(if \<not> i (nextReqNo c) (client c) then Some c
              else f i (c\<lparr>nextReqNo := nextReqNo c + numBuckets c\<rparr>)) = Some y"
  show "numBuckets y = numBuckets c \<and> client y = client c \<and> \<not> i (nextReqNo y) (client y)"
  proof (cases "i (nextReqNo c) (client c)")
    case True
    with eq have "f i (c\<lparr>nextReqNo := nextReqNo c + numBuckets c\<rparr>) = Some y" by simp
    from IH[OF this] show ?thesis by auto
  next
    case False
    with eq show ?thesis by simp
  qed
qed

lemma skip_keeps:
  assumes "skipPreviouslyCommitted isC co = Some co'"
  shows "numBuckets co' = numBuckets co" and "client co' = client co"
    and "\<not> isC (nextReqNo co') (client co')"
  using skip_keeps_aux[OF assms] by auto

lemma skip_steps:
  "(\<forall>j<k. isC (nextReqNo co + of_nat j * numBuckets co) (client co)) \<Longrightarrow>
   \<not> isC (nextReqNo co + of_nat k * numBuckets co) (client co) \<Longrightarrow>
   skipPreviouslyCommitted isC co = Some (co\<lparr>nextReqNo := nextReqNo co + of_nat k * numBuckets co\<rparr>)"
proof (induction k arbitrary: co)
  case 0
  then show ?case by (subst skipPreviouslyCommitted.simps) simp
next
  case (Suc k)
  let ?co = "co\<lparr>nextReqNo := nextReqNo co + numBuckets co\<rparr>"
  have c0: "isC (nextReqNo co) (client co)" using Suc.prems(1)[rule_format, of 0] by simp
  have a: "\<forall>j<k. isC (nextReqNo ?co + of_nat j * numBuckets ?co) (client ?co)"
  proof (intro allI impI)
    fix j assume "j < k"
    then have "isC (nextReqNo co + of_nat (Suc j) * numBuckets co) (client co)"
      using Suc.prems(1) by blast
    then show "isC (nextReqNo ?co + of_nat j * numBuckets ?co) (client ?co)"
      by (simp add: algebra_simps)
  qed
  have b: "\<not> isC (nextReqNo ?co + of_nat k * numBuckets ?co) (client ?co)"
    using Suc.prems(2) by (simp add: algebra_simps)
  have "skipPreviouslyCommitted isC ?co = Some (?co\<lparr>nextReqNo := nextReqNo ?co + of_nat k * numBuckets ?co\<rparr>)"
    by (rule Suc.IH[OF a b])
  then show ?case using c0
    by (subst skipPreviouslyCommitted.simps) (simp add: algebra_simps)
qed

section \<open>Applying acknowledgements and draining available requests\<close>

lemma bindR_Return:
  "bindR m f = Return r \<longleftrightarrow> (\<exists>x. m = Return x \<and> f x = Return r)"
  by (cases m) (simp_all add: bindR_def)

lemma applyAcksLoop_append:
  "applyAcksLoop isC b seq (pre @ post) st =
     (case applyAcksLoop isC b seq pre st of
        None \<Rightarrow> None
      | Some (st1, Some e) \<Rightarrow> Some (st1, Some e)
      | Some (st1, None) \<Rightarrow> applyAcksLoop isC b seq post st1)"
  by (induction pre arbitrary: st) (simp_all split: option.splits sum.splits)

lemma applyAcksBody_mismatch:
  "ackMismatch bo req \<Longrightarrow> \<exists>e. applyAcksBody isC b seq req (bo, cr, out, outs) = Some (Inl e)"
  by (auto simp: ackMismatch_def applyAcksBody_def split: option.splits)

lemma applyAcksBody_Inl:
  "applyAcksBody isC b seq req (bo, cr, out, outs) = Some (Inl e) \<Longrightarrow> ackMismatch bo req"
  by (auto simp: ackMismatch_def applyAcksBody_def Let_def split: option.splits if_splits prod.splits)

lemma applyAcksBody_disjoint:
  "applyAcksBody isC b seq req (bo, cr, out, outs) = Some (Inr (bo', cr', out', outs')) \<Longrightarrow>
   dom cr \<inter> dom out = {} \<Longrightarrow> dom cr' \<inter> dom out' = {}"
  by (auto simp: applyAcksBody_def Let_def disjoint_iff dom_def split: option.splits if_splits prod.splits)

lemma applyAcksLoop_disjoint:
  "applyAcksLoop isC b seq batch (bo, cr, out, outs) = Some ((bo', cr', out', outs'), r) \<Longrightarrow>
   dom cr \<inter> dom out = {} \<Longrightarrow> dom cr' \<inter> dom out' = {}"
proof (induction batch arbitrary: bo cr out outs)
  case Nil
  then show ?case by simp
next
  case (Cons req batch)
  show ?case
  proof (cases "applyAcksBody isC b seq req (bo, cr, out, outs)")
    case None
    with Cons.prems show ?thesis by simp
  next
    case (Some x)
    show ?thesis
    proof (cases x)
      case (Inl e)
      with Some Cons.prems show ?thesis by simp
    next
      case (Inr st)
      obtain bo1 cr1 out1 outs1 where st: "st = (bo1, cr1, out1, outs1)" by (cases st) auto
      have "dom cr1 \<inter> dom out1 = {}"
        using applyAcksBody_disjoint[of isC b seq req bo cr out outs bo1 cr1 out1 outs1]
          Some Inr st Cons.prems(2) by simp
      moreover have "applyAcksLoop isC b seq batch (bo1, cr1, out1, outs1) = Some ((bo', cr', out', outs'), r)"
        using Cons.prems(1) Some Inr st by simp
      ultimately show ?thesis using Cons.IH by blast
    qed
  qed
qed



lemma advanceRequestsLoop_Cons:
  "advanceRequestsLoop sat (ack # rest) st = Return st' \<longleftrightarrow>
     (\<exists>st1. advanceRequestsBody sat ack st = Return st1 \<and> advanceRequestsLoop sat rest st1 = Return st')"
  by (simp add: bindR_Return)









lemma advanceRequestsBody_disjoint:
  assumes "advanceRequestsBody sat ack (actions, ao, h, calls) = Return (actions1, ao1, h1, calls1)"
    and "dom (correctRequests ao) \<inter> dom (outstandingRequests ao) = {}"
  shows "dom (correctRequests ao1) \<inter> dom (outstandingRequests ao1) = {}"
  using assms
  by (auto simp: advanceRequestsBody_def Let_def bindR_Return disjoint_iff dom_def
           split: option.splits if_splits)

lemma advanceRequestsLoop_disjoint:
  assumes "advanceRequestsLoop sat xs (actions, ao, h, calls) = Return (actions', ao', h', calls')"
    and "dom (correctRequests ao) \<inter> dom (outstandingRequests ao) = {}"
  shows "dom (correctRequests ao') \<inter> dom (outstandingRequests ao') = {}"
  using assms
proof (induction xs arbitrary: actions ao h calls)
  case Nil
  then show ?case by simp
next
  case (Cons ack rest)
  from Cons.prems(1) obtain actions1 ao1 h1 calls1 where
    body: "advanceRequestsBody sat ack (actions, ao, h, calls) = Return (actions1, ao1, h1, calls1)"
    and rest: "advanceRequestsLoop sat rest (actions1, ao1, h1, calls1) = Return (actions', ao', h', calls')"
    unfolding advanceRequestsLoop_Cons by (metis prod_cases4)
  from Cons.IH[OF rest advanceRequestsBody_disjoint[OF body Cons.prems(2)]] show ?case .
qed

lemma skip_returns:
  assumes "\<exists>k. \<not> isC (nextReqNo co + of_nat k * numBuckets co) (client co)"
  shows "\<exists>co'. skipPreviouslyCommitted isC co = Some co'"
proof -
  define k where "k = (LEAST k. \<not> isC (nextReqNo co + of_nat k * numBuckets co) (client co))"
  have a: "\<not> isC (nextReqNo co + of_nat k * numBuckets co) (client co)"
    unfolding k_def using assms by (rule LeastI_ex)
  have b: "\<forall>j<k. isC (nextReqNo co + of_nat j * numBuckets co) (client co)"
    unfolding k_def using not_less_Least by blast
  show ?thesis using skip_steps[of k isC co] a b by blast
qed

lemma applyAcksBody_returns:
  assumes "skipsReturn isC bo"
  shows "\<exists>r. applyAcksBody isC b seq req (bo, cr, out, outs) = Some r"
proof (cases "clients bo (ClientId req)")
  case None
  then show ?thesis by (simp add: applyAcksBody_def)
next
  case (Some co)
  have "\<exists>k. \<not> isC (nextReqNo (co\<lparr>nextReqNo := nextReqNo co + numBuckets co\<rparr>)
                 + of_nat k * numBuckets (co\<lparr>nextReqNo := nextReqNo co + numBuckets co\<rparr>))
               (client (co\<lparr>nextReqNo := nextReqNo co + numBuckets co\<rparr>))"
    using assms Some unfolding skipsReturn_def by simp
  with skip_returns[of isC "co\<lparr>nextReqNo := nextReqNo co + numBuckets co\<rparr>"] obtain co' where
    "skipPreviouslyCommitted isC (co\<lparr>nextReqNo := nextReqNo co + numBuckets co\<rparr>) = Some co'"
    by blast
  with Some show ?thesis
    by (auto simp: applyAcksBody_def Let_def split: option.splits prod.splits)
qed

lemma applyAcksBody_skipsReturn:
  assumes "applyAcksBody isC b seq req (bo, cr, out, outs) = Some (Inr (bo', cr', out', outs'))"
    and "skipsReturn isC bo"
  shows "skipsReturn isC bo'"
proof -
  from assms(1) obtain co co' where co: "clients bo (ClientId req) = Some co"
    and sk: "skipPreviouslyCommitted isC (co\<lparr>nextReqNo := nextReqNo co + numBuckets co\<rparr>) = Some co'"
    and bo': "bo' = bo\<lparr>clients := (clients bo)(ClientId req \<mapsto> co')\<rparr>"
    by (auto simp: applyAcksBody_def Let_def split: option.splits if_splits prod.splits)
  have "numBuckets co' = numBuckets co" "client co' = client co"
    using skip_keeps(1,2)[OF sk] by simp_all
  with assms(2) co show ?thesis
    unfolding skipsReturn_def bo' by (auto split: if_splits)
qed

lemma applyAcksLoop_returns:
  assumes "skipsReturn isC bo"
  shows "\<exists>r. applyAcksLoop isC b seq batch (bo, cr, out, outs) = Some r"
  using assms
proof (induction batch arbitrary: bo cr out outs)
  case Nil
  show ?case by simp
next
  case (Cons req batch)
  from applyAcksBody_returns[OF Cons.prems, of b seq req cr out outs] obtain r where
    r: "applyAcksBody isC b seq req (bo, cr, out, outs) = Some r" by blast
  show ?case
  proof (cases r)
    case (Inl e)
    with r show ?thesis by simp
  next
    case (Inr st)
    obtain bo1 cr1 out1 outs1 where st: "st = (bo1, cr1, out1, outs1)" by (cases st) auto
    have "skipsReturn isC bo1"
      using applyAcksBody_skipsReturn[of isC b seq req bo cr out outs bo1 cr1 out1 outs1]
        r Inr st Cons.prems by simp
    from Cons.IH[OF this] show ?thesis using r Inr st by simp
  qed
qed

lemma applyAcksLoop_mismatch:
  assumes "applyAcksLoop isC b seq pre st = Some ((bo1, cr1, out1, outs1), None)"
    and "ackMismatch bo1 req"
  shows "\<exists>e. applyAcksLoop isC b seq (pre @ req # post) st = Some ((bo1, cr1, out1, outs1), Some e)"
proof -
  from applyAcksBody_mismatch[OF assms(2), of isC b seq cr1 out1 outs1] obtain e where
    "applyAcksBody isC b seq req (bo1, cr1, out1, outs1) = Some (Inl e)" by blast
  then show ?thesis by (simp add: applyAcksLoop_append assms(1))
qed

lemma applyAcksLoop_error_split:
  assumes "applyAcksLoop isC b seq batch st = Some (st', Some e)"
  shows "\<exists>pre req post bo1 cr1 out1 outs1. batch = pre @ req # post
           \<and> applyAcksLoop isC b seq pre st = Some ((bo1, cr1, out1, outs1), None)
           \<and> ackMismatch bo1 req"
  using assms
proof (induction batch arbitrary: st)
  case Nil
  then show ?case by simp
next
  case (Cons req batch)
  obtain bo cr out outs where st: "st = (bo, cr, out, outs)" by (cases st) auto
  show ?case
  proof (cases "applyAcksBody isC b seq req st")
    case None
    with Cons.prems show ?thesis by simp
  next
    case (Some r)
    show ?thesis
    proof (cases r)
      case (Inl e')
      have "ackMismatch bo req"
        using applyAcksBody_Inl[of isC b seq req bo cr out outs e'] Some Inl st by simp
      moreover have "applyAcksLoop isC b seq [] st = Some ((bo, cr, out, outs), None)"
        by (simp add: st)
      ultimately show ?thesis by (metis append_Nil)
    next
      case (Inr st1)
      with Some Cons.prems have "applyAcksLoop isC b seq batch st1 = Some (st', Some e)" by simp
      from Cons.IH[OF this] obtain pre req' post bo1 cr1 out1 outs1 where
        s: "batch = pre @ req' # post"
        "applyAcksLoop isC b seq pre st1 = Some ((bo1, cr1, out1, outs1), None)"
        "ackMismatch bo1 req'" by blast
      have "req # batch = (req # pre) @ req' # post" using s(1) by simp
      moreover have "applyAcksLoop isC b seq (req # pre) st = Some ((bo1, cr1, out1, outs1), None)"
        using s(2) Some Inr by simp
      ultimately show ?thesis using s(3) by blast
    qed
  qed
qed

lemma applyAcks_on_error:
  assumes "buckets ao bucket = Some bo"
    and "applyAcksLoop isC bucket seq pre (bo, correctRequests ao, outstandingRequests ao, {})
           = Some ((bo1, cr1, out1, outs1), None)"
    and "ackMismatch bo1 req"
  shows "\<exists>err. applyAcks isC allocate bucket seq (pre @ req # post) ao h =
           Some (Return (ao\<lparr>buckets := (buckets ao)(bucket \<mapsto> bo1), correctRequests := cr1,
                            outstandingRequests := out1\<rparr>, h, Inl err))"
proof -
  from applyAcksLoop_mismatch[OF assms(2,3)] obtain e where
    "applyAcksLoop isC bucket seq (pre @ req # post)
       (bo, correctRequests ao, outstandingRequests ao, {}) = Some ((bo1, cr1, out1, outs1), Some e)"
    by blast
  then show ?thesis using assms(1) by (simp add: applyAcks_def)
qed

lemma skip_nextFree:
  assumes "\<exists>k. \<not> isC (n + of_nat k * numBuckets co) (client co)"
  shows "skipPreviouslyCommitted isC (co\<lparr>nextReqNo := n\<rparr>)
           = Some (co\<lparr>nextReqNo := nextFree isC co n\<rparr>)"
proof -
  define k where "k = (LEAST k. \<not> isC (n + of_nat k * numBuckets co) (client co))"
  have a: "\<not> isC (n + of_nat k * numBuckets co) (client co)"
    unfolding k_def using assms by (rule LeastI_ex)
  have b: "\<forall>j<k. isC (n + of_nat j * numBuckets co) (client co)"
    unfolding k_def using not_less_Least by blast
  from skip_steps[of k isC "co\<lparr>nextReqNo := n\<rparr>"] a b
  show ?thesis by (simp add: nextFree_def k_def)
qed

lemma nextFree_steps:
  assumes "\<forall>j<k. isC (n + of_nat j * numBuckets co) (client co)"
    and "\<not> isC (n + of_nat k * numBuckets co) (client co)"
  shows "nextFree isC co n = n + of_nat k * numBuckets co"
proof -
  have "(LEAST k. \<not> isC (n + of_nat k * numBuckets co) (client co)) = k"
  proof (rule Least_equality)
    show "\<not> isC (n + of_nat k * numBuckets co) (client co)" by (rule assms(2))
  next
    fix y assume "\<not> isC (n + of_nat y * numBuckets co) (client co)"
    with assms(1) show "k \<le> y" by (meson not_le)
  qed
  then show ?thesis by (simp add: nextFree_def)
qed

lemma batchMatches_snoc:
  "batchMatches isC bo (pre @ [a]) \<longleftrightarrow>
     batchMatches isC bo pre \<and> expectedReqNo isC bo pre (ClientId a) = Some (ReqNo a)"
  unfolding batchMatches_def
  by (auto simp: nth_append less_Suc_eq)

lemma batchMatches_take:
  assumes "batchMatches isC bo batch"
  shows "batchMatches isC bo (take k batch)"
  unfolding batchMatches_def
proof (intro allI impI)
  fix j assume j: "j < length (take k batch)"
  then have "j < length batch" "j < k" by simp_all
  with assms have "expectedReqNo isC bo (take j batch) (ClientId (batch ! j))
                     = Some (ReqNo (batch ! j))"
    unfolding batchMatches_def by blast
  moreover have "take j (take k batch) = take j batch" using \<open>j < k\<close> by (simp add: min_def)
  moreover have "take k batch ! j = batch ! j" using \<open>j < k\<close> by simp
  ultimately show "expectedReqNo isC bo (take j (take k batch)) (ClientId (take k batch ! j))
                     = Some (ReqNo (take k batch ! j))" by simp
qed

lemma first_mismatch:
  assumes "\<not> batchMatches isC bo batch"
  shows "\<exists>pre req post. batch = pre @ req # post \<and> batchMatches isC bo pre
           \<and> expectedReqNo isC bo pre (ClientId req) \<noteq> Some (ReqNo req)"
proof -
  let ?bad = "\<lambda>k. k < length batch
                \<and> expectedReqNo isC bo (take k batch) (ClientId (batch ! k))
                    \<noteq> Some (ReqNo (batch ! k))"
  from assms have ex: "\<exists>k. ?bad k" unfolding batchMatches_def by blast
  define k where "k = (LEAST k. ?bad k)"
  have bad: "?bad k" unfolding k_def using ex by (rule LeastI_ex)
  have good: "\<forall>j<k. \<not> ?bad j" unfolding k_def using not_less_Least by blast
  have "batchMatches isC bo (take k batch)"
    unfolding batchMatches_def
  proof (intro allI impI)
    fix j assume j: "j < length (take k batch)"
    then have jk: "j < k" and jl: "j < length batch" by simp_all
    with good have "expectedReqNo isC bo (take j batch) (ClientId (batch ! j))
                      = Some (ReqNo (batch ! j))" by blast
    moreover have "take j (take k batch) = take j batch" using jk by (simp add: min_def)
    moreover have "take k batch ! j = batch ! j" using jk by simp
    ultimately show "expectedReqNo isC bo (take j (take k batch)) (ClientId (take k batch ! j))
                       = Some (ReqNo (take k batch ! j))" by simp
  qed
  moreover have "batch = take k batch @ batch ! k # drop (Suc k) batch"
    using bad by (simp add: id_take_nth_drop)
  ultimately show ?thesis using bad by blast
qed

lemma outstandingDigests_snoc:
  "outstandingDigests cr (pre @ [a]) =
     (if Digest a \<in> Digest ` set pre \<or> cr (Digest a) = None
      then insert (Digest a) (outstandingDigests cr pre)
      else outstandingDigests cr pre)"
proof -
  have old: "\<And>d. d \<noteq> Digest a \<Longrightarrow>
                d \<in> outstandingDigests cr (pre @ [a]) \<longleftrightarrow> d \<in> outstandingDigests cr pre"
    by (auto simp: outstandingDigests_def)
  have cnt: "1 < length (filter (\<lambda>ack. Digest ack = Digest a) (pre @ [a]))
               \<longleftrightarrow> Digest a \<in> Digest ` set pre"
  proof -
    have "0 < length (filter (\<lambda>ack. Digest ack = Digest a) pre)
            \<longleftrightarrow> Digest a \<in> Digest ` set pre"
      by (auto simp: filter_empty_conv intro: rev_image_eqI)
    then show ?thesis by simp
  qed
  have new: "Digest a \<in> outstandingDigests cr (pre @ [a])
               \<longleftrightarrow> Digest a \<in> Digest ` set pre \<or> cr (Digest a) = None"
    unfolding outstandingDigests_def using cnt by auto
  have sub: "Digest a \<in> outstandingDigests cr pre \<Longrightarrow> Digest a \<in> Digest ` set pre"
    by (simp add: outstandingDigests_def)
  show ?thesis
  proof (rule set_eqI)
    fix d
    show "d \<in> outstandingDigests cr (pre @ [a]) \<longleftrightarrow>
          d \<in> (if Digest a \<in> Digest ` set pre \<or> cr (Digest a) = None
                then insert (Digest a) (outstandingDigests cr pre)
                else outstandingDigests cr pre)"
    proof (cases "d = Digest a")
      case True
      then show ?thesis using new sub by auto
    next
      case False
      then show ?thesis using old[OF False] by auto
    qed
  qed
qed

lemma clientsAfter_Nil: "clientsAfter isC bo [] = bo"
proof -
  have "(\<lambda>clientId. map_option (\<lambda>co. co\<lparr>nextReqNo := nextReqNo co\<rparr>) (clients bo clientId))
          = clients bo"
    by (rule ext) (simp add: option.map_ident)
  then show ?thesis by (simp add: clientsAfter_def nextExpected_def)
qed

lemma clientsAfter_snoc:
  assumes "clients bo (ClientId a) = Some co"
  shows "clients (clientsAfter isC bo (pre @ [a]))
           = (clients (clientsAfter isC bo pre))
               (ClientId a \<mapsto> co\<lparr>nextReqNo := nextFree isC co (ReqNo a + numBuckets co)\<rparr>)"
proof (rule ext)
  fix cid
  show "clients (clientsAfter isC bo (pre @ [a])) cid
           = ((clients (clientsAfter isC bo pre))
               (ClientId a \<mapsto> co\<lparr>nextReqNo := nextFree isC co (ReqNo a + numBuckets co)\<rparr>)) cid"
    using assms by (cases "cid = ClientId a") (auto simp: clientsAfter_def nextExpected_def)
qed

lemma clientsAfter_update:
  "(clientsAfter isC bo pre)\<lparr>clients := clients (clientsAfter isC bo (pre @ [a]))\<rparr>
     = clientsAfter isC bo (pre @ [a])"
  by (simp add: clientsAfter_def)

lemma clientsAfter_expected:
  "map_option nextReqNo (clients (clientsAfter isC bo pre) cid) = expectedReqNo isC bo pre cid"
  by (cases "clients bo cid") (simp_all add: clientsAfter_def expectedReqNo_def)

lemma applyAcksBody_accepts:
  assumes sk: "skipsReturn isC bo"
    and ex: "expectedReqNo isC bo pre (ClientId a) = Some (ReqNo a)"
  shows "applyAcksBody isC bucket seq a
           (clientsAfter isC bo pre,
            (\<lambda>d. if d \<in> Digest ` set pre then None else cr d),
            (\<lambda>d. if d \<in> outstandingDigests cr pre then Some seq else out d),
            outstandingDigests cr pre)
         = Some (Inr (clientsAfter isC bo (pre @ [a]),
                      (\<lambda>d. if d \<in> Digest ` set (pre @ [a]) then None else cr d),
                      (\<lambda>d. if d \<in> outstandingDigests cr (pre @ [a]) then Some seq else out d),
                      outstandingDigests cr (pre @ [a])))"
proof -
  define cr1 where "cr1 = (\<lambda>d. if d \<in> Digest ` set pre then None else cr d)"
  define out1 where "out1 = (\<lambda>d. if d \<in> outstandingDigests cr pre then Some seq else out d)"
  define cr2 where "cr2 = (\<lambda>d. if d \<in> Digest ` set (pre @ [a]) then None else cr d)"
  define out2 where
    "out2 = (\<lambda>d. if d \<in> outstandingDigests cr (pre @ [a]) then Some seq else out d)"
  from ex obtain co where co: "clients bo (ClientId a) = Some co"
    and n: "nextExpected isC co (filter (\<lambda>ack. ClientId ack = ClientId a) pre) = ReqNo a"
    by (auto simp: expectedReqNo_def)
  have c1: "clients (clientsAfter isC bo pre) (ClientId a) = Some (co\<lparr>nextReqNo := ReqNo a\<rparr>)"
    using co n by (simp add: clientsAfter_def)
  have "\<exists>k. \<not> isC (ReqNo a + numBuckets co + of_nat k * numBuckets co) (client co)"
    using sk co unfolding skipsReturn_def by blast
  with skip_nextFree[of isC "ReqNo a + numBuckets co" co]
  have s: "skipPreviouslyCommitted isC (co\<lparr>nextReqNo := ReqNo a + numBuckets co\<rparr>)
             = Some (co\<lparr>nextReqNo := nextFree isC co (ReqNo a + numBuckets co)\<rparr>)"
    by simp
  have cl: "(clientsAfter isC bo pre)
              \<lparr>clients := (clients (clientsAfter isC bo pre))
                 (ClientId a \<mapsto> co\<lparr>nextReqNo := nextFree isC co (ReqNo a + numBuckets co)\<rparr>)\<rparr>
            = clientsAfter isC bo (pre @ [a])"
    unfolding clientsAfter_snoc[OF co, symmetric] by (rule clientsAfter_update)
  have body: "applyAcksBody isC bucket seq a
                (clientsAfter isC bo pre, cr1, out1, outstandingDigests cr pre)
              = Some (Inr (clientsAfter isC bo (pre @ [a]), cr2, out2,
                           outstandingDigests cr (pre @ [a])))"
  proof (cases "Digest a \<in> Digest ` set pre \<or> cr (Digest a) = None")
    case True
    then have k: "cr1 (Digest a) = None" by (auto simp: cr1_def)
    have m1: "cr2 = cr1"
      using True by (auto simp: fun_eq_iff cr1_def cr2_def)
    have m2: "out2 = out1(Digest a \<mapsto> seq)"
      using True by (auto simp: fun_eq_iff outstandingDigests_snoc out1_def out2_def)
    have m3: "outstandingDigests cr (pre @ [a]) = insert (Digest a) (outstandingDigests cr pre)"
      using True by (simp add: outstandingDigests_snoc)
    show ?thesis
      unfolding applyAcksBody_def m1 m2 m3
      by (simp add: c1 s k cl Let_def)
  next
    case False
    then obtain v where k: "cr1 (Digest a) = Some v" by (auto simp: cr1_def)
    have m1: "cr2 = cr1(Digest a := None)"
      by (auto simp: fun_eq_iff cr1_def cr2_def)
    have m2: "out2 = out1"
      using False by (auto simp: fun_eq_iff outstandingDigests_snoc out1_def out2_def)
    have m3: "outstandingDigests cr (pre @ [a]) = outstandingDigests cr pre"
      using False by (auto simp: outstandingDigests_snoc)
    show ?thesis
      unfolding applyAcksBody_def m1 m2 m3
      by (simp add: c1 s k cl Let_def)
  qed
  then show ?thesis unfolding cr1_def out1_def cr2_def out2_def .
qed

lemma applyAcksBody_rejects:
  assumes "expectedReqNo isC bo pre (ClientId req) \<noteq> Some (ReqNo req)"
  shows "applyAcksBody isC bucket seq req (clientsAfter isC bo pre, cr1, out1, outs1)
           = Some (Inl (rejection isC bucket bo pre req))"
proof (cases "clients bo (ClientId req)")
  case None
  then show ?thesis
    by (simp add: applyAcksBody_def clientsAfter_def rejection_def expectedReqNo_def)
next
  case (Some co)
  with assms show ?thesis
    by (simp add: applyAcksBody_def clientsAfter_def rejection_def expectedReqNo_def)
qed

lemma applyAcksLoop_accepted:
  assumes "skipsReturn isC bo" and "batchMatches isC bo batch"
  shows "applyAcksLoop isC bucket seq batch (bo, cr, out, {})
           = Some ((clientsAfter isC bo batch,
                    (\<lambda>d. if d \<in> Digest ` set batch then None else cr d),
                    (\<lambda>d. if d \<in> outstandingDigests cr batch then Some seq else out d),
                    outstandingDigests cr batch), None)"
  using assms(2)
proof (induction batch rule: rev_induct)
  case Nil
  show ?case by (simp add: clientsAfter_Nil outstandingDigests_def)
next
  case (snoc a pre)
  from snoc.prems have m: "batchMatches isC bo pre"
    and e: "expectedReqNo isC bo pre (ClientId a) = Some (ReqNo a)"
    unfolding batchMatches_snoc by simp_all
  note ih = snoc.IH[OF m]
  note body = applyAcksBody_accepts[OF assms(1) e, of bucket seq cr out]
  show ?case
    unfolding applyAcksLoop_append ih
    by (simp only: option.case prod.case applyAcksLoop.simps body sum.case)
qed

lemma applyAcksLoop_rejected:
  assumes "skipsReturn isC bo" and "batchMatches isC bo pre"
    and "expectedReqNo isC bo pre (ClientId req) \<noteq> Some (ReqNo req)"
  shows "applyAcksLoop isC bucket seq (pre @ req # post) (bo, cr, out, {})
           = Some ((clientsAfter isC bo pre,
                    (\<lambda>d. if d \<in> Digest ` set pre then None else cr d),
                    (\<lambda>d. if d \<in> outstandingDigests cr pre then Some seq else out d),
                    outstandingDigests cr pre), Some (rejection isC bucket bo pre req))"
  unfolding applyAcksLoop_append applyAcksLoop_accepted[OF assms(1,2)]
  by (simp only: option.case prod.case applyAcksLoop.simps applyAcksBody_rejects[OF assms(3)]
        sum.case)

lemma applyAcks_accepted:
  assumes "buckets ao bucket = Some bo" and "skipsReturn isC bo" and "batchMatches isC bo batch"
  shows "applyAcks isC allocate bucket seq batch ao h
           = Some (bindR (allocate seq batch (outstandingDigests (correctRequests ao) batch) h)
                     (\<lambda>(acts, h'). Return (trackerAfter isC bucket seq batch ao, h', Inr acts)))"
  unfolding applyAcks_def trackerAfter_def
  by (simp add: assms(1) applyAcksLoop_accepted[OF assms(2,3)])

lemma applyAcks_rejected:
  assumes "buckets ao bucket = Some bo" and "skipsReturn isC bo" and "batchMatches isC bo pre"
    and "expectedReqNo isC bo pre (ClientId req) \<noteq> Some (ReqNo req)"
  shows "applyAcks isC allocate bucket seq (pre @ req # post) ao h
           = Some (Return (trackerAfter isC bucket seq pre ao, h,
                           Inl (rejection isC bucket bo pre req)))"
  unfolding applyAcks_def trackerAfter_def
  by (simp add: assms(1) applyAcksLoop_rejected[OF assms(2,3,4)])

text \<open>
  Claim C2. Let \<open>bucket\<close> be tracked and let \<open>skipPreviouslyCommitted\<close> return for its
  clients. If some acknowledgement of the batch names an unknown client, or a request
  number other than the one expected from its client after the acknowledgements before
  it, then \<open>applyAcks\<close> returns an error and \<open>seq.allocate\<close> is not called (the heap is the
  one given). If every acknowledgement matches, \<open>applyAcks\<close> returns what \<open>seq.allocate\<close>
  returns for the batch and the set of its digests left outstanding, empty or not, and
  the tracker is the one after the batch.
\<close>

theorem applyAcks_rejects_or_allocates:
  assumes "buckets ao bucket = Some bo" and "skipsReturn isCommitted bo"
  shows "(\<not> batchMatches isCommitted bo batch
            \<longrightarrow> (\<exists>ao' err. applyAcks isCommitted allocate bucket seq batch ao h
                              = Some (Return (ao', h, Inl err))))
       \<and> (batchMatches isCommitted bo batch
            \<longrightarrow> applyAcks isCommitted allocate bucket seq batch ao h
                  = Some (bindR (allocate seq batch
                                   (outstandingDigests (correctRequests ao) batch) h)
                            (\<lambda>(acts, h').
                               Return (trackerAfter isCommitted bucket seq batch ao, h',
                                       Inr acts))))"
proof (intro conjI impI)
  assume "\<not> batchMatches isCommitted bo batch"
  from first_mismatch[OF this] obtain pre req post where
    b: "batch = pre @ req # post" and m: "batchMatches isCommitted bo pre"
    and e: "expectedReqNo isCommitted bo pre (ClientId req) \<noteq> Some (ReqNo req)"
    by blast
  show "\<exists>ao' err. applyAcks isCommitted allocate bucket seq batch ao h
                     = Some (Return (ao', h, Inl err))"
    unfolding b applyAcks_rejected[OF assms m e] by blast
next
  assume "batchMatches isCommitted bo batch"
  with assms show "applyAcks isCommitted allocate bucket seq batch ao h
                  = Some (bindR (allocate seq batch
                                   (outstandingDigests (correctRequests ao) batch) h)
                            (\<lambda>(acts, h').
                               Return (trackerAfter isCommitted bucket seq batch ao, h',
                                       Inr acts)))"
    by (rule applyAcks_accepted)
qed

text \<open>
  Claim C9. When the acknowledgements \<open>pre\<close> match and the next one does not, \<open>applyAcks\<close>
  returns the error for that acknowledgement, calls no \<open>seq.allocate\<close>, and returns the
  tracker as it is after \<open>pre\<close>, not the one it was given: every digest of \<open>pre\<close> is gone
  from \<open>correctRequests\<close>, every digest of \<open>pre\<close> that was not vouched correct is
  registered in \<open>outstandingRequests\<close> against the sequence, and each client of the
  bucket expects the request number that follows its acknowledgements in \<open>pre\<close>.
\<close>

theorem applyAcks_error_keeps_writes:
  assumes "buckets ao bucket = Some bo" and "skipsReturn isCommitted bo"
    and "batchMatches isCommitted bo pre"
    and "expectedReqNo isCommitted bo pre (ClientId req) \<noteq> Some (ReqNo req)"
  shows "applyAcks isCommitted allocate bucket seq (pre @ req # post) ao h
           = Some (Return (trackerAfter isCommitted bucket seq pre ao, h,
                           Inl (rejection isCommitted bucket bo pre req)))
       \<and> (\<forall>ack \<in> set pre.
             correctRequests (trackerAfter isCommitted bucket seq pre ao) (Digest ack) = None)
       \<and> (\<forall>ack \<in> set pre. correctRequests ao (Digest ack) = None
             \<longrightarrow> outstandingRequests (trackerAfter isCommitted bucket seq pre ao) (Digest ack)
                   = Some seq)
       \<and> (\<exists>bo'. buckets (trackerAfter isCommitted bucket seq pre ao) bucket = Some bo'
             \<and> (\<forall>clientId. map_option nextReqNo (clients bo' clientId)
                               = expectedReqNo isCommitted bo pre clientId))"
proof (intro conjI ballI impI)
  show "applyAcks isCommitted allocate bucket seq (pre @ req # post) ao h
           = Some (Return (trackerAfter isCommitted bucket seq pre ao, h,
                           Inl (rejection isCommitted bucket bo pre req)))"
    using assms by (rule applyAcks_rejected)
next
  fix ack assume "ack \<in> set pre"
  then show "correctRequests (trackerAfter isCommitted bucket seq pre ao) (Digest ack) = None"
    by (simp add: trackerAfter_def)
next
  fix ack assume "ack \<in> set pre" and "correctRequests ao (Digest ack) = None"
  then have "Digest ack \<in> outstandingDigests (correctRequests ao) pre"
    by (simp add: outstandingDigests_def)
  then show "outstandingRequests (trackerAfter isCommitted bucket seq pre ao) (Digest ack)
               = Some seq"
    by (simp add: trackerAfter_def)
next
  have "buckets (trackerAfter isCommitted bucket seq pre ao) bucket
          = Some (clientsAfter isCommitted bo pre)"
    using assms(1) by (simp add: trackerAfter_def)
  then show "\<exists>bo'. buckets (trackerAfter isCommitted bucket seq pre ao) bucket = Some bo'
             \<and> (\<forall>clientId. map_option nextReqNo (clients bo' clientId)
                               = expectedReqNo isCommitted bo pre clientId)"
    by (simp add: clientsAfter_expected)
qed

text \<open>
  Claim C10. If no digest is a key of both \<open>correctRequests\<close> and \<open>outstandingRequests\<close>,
  the same holds of the tracker that \<open>advanceRequests\<close> returns and of the tracker that
  \<open>applyAcks\<close> returns, with or without an error.
\<close>

theorem digest_maps_stay_disjoint:
  assumes "digestMapsDisjoint ao"
  shows "(advanceRequests satisfyOutstanding ao h = Return (acts, ao1, h1, calls)
            \<longrightarrow> digestMapsDisjoint ao1)
       \<and> (applyAcks isCommitted allocate bucket seq batch ao h = Some (Return (ao2, h2, r))
            \<longrightarrow> digestMapsDisjoint ao2)"
proof (intro conjI impI)
  assume "advanceRequests satisfyOutstanding ao h = Return (acts, ao1, h1, calls)"
  then have "advanceRequestsLoop satisfyOutstanding (availableIterator ao) ([], ao, h, [])
               = Return (acts, ao1, h1, calls)"
    unfolding advanceRequests_def .
  from advanceRequestsLoop_disjoint[OF this] assms show "digestMapsDisjoint ao1"
    unfolding digestMapsDisjoint_def by simp
next
  assume a: "applyAcks isCommitted allocate bucket seq batch ao h = Some (Return (ao2, h2, r))"
  then obtain bo where bo: "buckets ao bucket = Some bo"
    by (auto simp: applyAcks_def split: option.splits)
  from a bo obtain bo' cr' out' outs' e where
    l: "applyAcksLoop isCommitted bucket seq batch
          (bo, correctRequests ao, outstandingRequests ao, {}) = Some ((bo', cr', out', outs'), e)"
    and ao2: "ao2 = ao\<lparr>buckets := (buckets ao)(bucket \<mapsto> bo'), correctRequests := cr',
                        outstandingRequests := out'\<rparr>"
    by (auto simp: applyAcks_def bindR_Return Let_def split: option.splits prod.splits)
  from applyAcksLoop_disjoint[OF l] assms show "digestMapsDisjoint ao2"
    unfolding digestMapsDisjoint_def ao2 by simp
qed

section \<open>The recovery walk over the log\<close>

lemma mostRecentCEntry_snoc:
  "mostRecentCEntry (es @ [(i, e)]) =
     (case e of Persistent_CEntry c \<Rightarrow> Some c | _ \<Rightarrow> mostRecentCEntry es)"
  by (cases e) (simp_all add: mostRecentCEntry_def)

lemma truncationPoints_snoc:
  "truncationPoints (es @ [(i, e)]) =
     truncationPoints es @
       (if isFEntry e
        then (case mostRecentCEntry es of Some c \<Rightarrow> [CEntry.SeqNo c] | None \<Rightarrow> [])
        else [])"
proof -
  have f: "filter (\<lambda>k. isFEntry (snd ((es @ [(i, e)]) ! k))) [0..<length es]
         = filter (\<lambda>k. isFEntry (snd (es ! k))) [0..<length es]"
    by (rule filter_cong) (simp_all add: nth_append)
  have m: "map (\<lambda>k. case mostRecentCEntry (take k es @ take (k - length es) [(i, e)]) of
                      Some c \<Rightarrow> [CEntry.SeqNo c] | None \<Rightarrow> [])
             (filter (\<lambda>k. isFEntry (snd (es ! k))) [0..<length es])
         = map (\<lambda>k. case mostRecentCEntry (take k es) of
                      Some c \<Rightarrow> [CEntry.SeqNo c] | None \<Rightarrow> [])
             (filter (\<lambda>k. isFEntry (snd (es ! k))) [0..<length es])"
    by (rule map_cong) auto
  show ?thesis
    unfolding truncationPoints_def[of "es @ [(i, e)]"] truncationPoints_def[of es]
    by (simp add: f m)
qed

lemma truncations_snoc:
  "truncations (points @ [lw]) p =
     (fst (truncations points p) @ fst (truncationOf lw (snd (truncations points p))),
      snd (truncationOf lw (snd (truncations points p))))"
  by (simp add: truncations_def split: prod.splits)

lemma wellFormedLog_snoc:
  "wellFormedLog (es @ [(i, e)]) \<longleftrightarrow>
     wellFormedLog es \<and> e \<noteq> Persistent_unset \<and> (isFEntry e \<longrightarrow> mostRecentCEntry es \<noteq> None)"
  unfolding wellFormedLog_def
  by (auto simp: nth_append less_Suc_eq)

lemma recoverLogLoop_append:
  "recoverLogLoop (pre @ post) lc acts p =
     (case recoverLogLoop pre lc acts p of
        (calls1, Panic e) \<Rightarrow> (calls1, Panic e)
      | (calls1, Return (lc1, acts1, p1)) \<Rightarrow>
          (case recoverLogLoop post lc1 acts1 p1 of (calls2, r) \<Rightarrow> (calls1 @ calls2, r)))"
proof (induction pre arbitrary: lc acts p)
  case Nil
  show ?case by (simp split: prod.splits)
next
  case (Cons x pre)
  obtain i e where x: "x = (i, e)" by (cases x) auto
  show ?case
    unfolding x
    by (cases e)
       (auto simp: Cons.IH assertNotEqualf_def split: prod.splits result.splits option.splits)
qed

lemma truncateLoop_dropWhile:
  "truncateLoop lw False es =
     (case dropWhile (\<lambda>x. \<not> keptAt lw (snd x)) es of
        [] \<Rightarrow> None
      | x # r \<Rightarrow> Some (fst x, x # r))"
proof (induction es)
  case Nil
  show ?case by simp
next
  case (Cons x es)
  obtain i e where x: "x = (i, e)" by (cases x) auto
  show ?case unfolding x using Cons.IH
    by (cases e) (auto simp: keptAt_def not_less not_le)
qed

lemma truncatePersisted_truncationOf:
  "truncatePersisted lw p = truncationOf lw p"
proof (cases "logHead p")
  case Nil
  then show ?thesis by (simp add: truncatePersisted_def truncationOf_def)
next
  case (Cons x es)
  obtain i e where x: "x = (i, e)" by (cases x) auto
  show ?thesis
  proof (cases "keptAt lw e")
    case True
    then have "truncateLoop lw True (logHead p) = None"
      unfolding Cons x by (cases e) (auto simp: keptAt_def)
    moreover have "dropWhile (\<lambda>x. \<not> keptAt lw (snd x)) (logHead p) = logHead p"
      unfolding Cons x using True by simp
    ultimately show ?thesis by (simp add: truncatePersisted_def truncationOf_def)
  next
    case False
    then have l: "truncateLoop lw True (logHead p) = truncateLoop lw False es"
      unfolding Cons x by (cases e) (auto simp: keptAt_def)
    have d: "dropWhile (\<lambda>x. \<not> keptAt lw (snd x)) (logHead p)
               = dropWhile (\<lambda>x. \<not> keptAt lw (snd x)) es"
      unfolding Cons x using False by simp
    have "length (dropWhile (\<lambda>x. \<not> keptAt lw (snd x)) es) \<le> length es"
      by (rule length_dropWhile_le)
    then have n: "dropWhile (\<lambda>x. \<not> keptAt lw (snd x)) es \<noteq> logHead p"
      unfolding Cons by auto
    show ?thesis
    proof (cases "dropWhile (\<lambda>x. \<not> keptAt lw (snd x)) es")
      case Nil
      show ?thesis
        unfolding truncatePersisted_def truncationOf_def l d truncateLoop_dropWhile Let_def Nil
        by simp
    next
      case (Cons y r)
      from n have "y # r \<noteq> logHead p" unfolding Cons .
      then show ?thesis
        unfolding truncatePersisted_def truncationOf_def l d truncateLoop_dropWhile Let_def Cons
        by simp
    qed
  qed
qed

lemma recoverLogLoop_lastCEntry:
  "recoverLogLoop es lc acts p = (calls, Return (lc1, acts1, p1)) \<Longrightarrow>
     lc1 = foldl (\<lambda>found entry. case snd entry of Persistent_CEntry c \<Rightarrow> Some c | _ \<Rightarrow> found) lc es"
proof (induction es arbitrary: lc acts p calls)
  case Nil
  then show ?case by simp
next
  case (Cons x es)
  obtain i e where x: "x = (i, e)" by (cases x) auto
  show ?case
    using Cons.prems unfolding x
    by (cases e)
       (auto simp: assertNotEqualf_def split: prod.splits option.splits dest: Cons.IH)
qed

lemma recoverLogLoop_FEntry_without_CEntry:
  assumes "mostRecentCEntry pre = None"
  shows "\<exists>calls e. recoverLogLoop (pre @ (i, Persistent_FEntry f) # post) None [] p = (calls, Panic e)"
proof (cases "recoverLogLoop pre None [] p")
  case (Pair calls1 r)
  show ?thesis
  proof (cases r)
    case (Panic e)
    with Pair show ?thesis by (simp add: recoverLogLoop_append)
  next
    case (Return st)
    obtain lc1 acts1 p1 where st: "st = (lc1, acts1, p1)" by (cases st) auto
    have "lc1 = None"
      using recoverLogLoop_lastCEntry[OF Pair[unfolded Return st]] assms
      by (simp add: mostRecentCEntry_def)
    then show ?thesis using Pair Return st
      by (simp add: recoverLogLoop_append assertNotEqualf_def)
  qed
qed

lemma recoverLogLoop_wellFormed:
  assumes "wellFormedLog es"
  shows "recoverLogLoop es None [] p
           = (map (\<lambda>s. Call ''persisted.truncate'' [s]) (truncationPoints es),
              Return (mostRecentCEntry es, fst (truncations (truncationPoints es) p),
                      snd (truncations (truncationPoints es) p)))"
  using assms
proof (induction es rule: rev_induct)
  case Nil
  show ?case by (simp add: truncationPoints_def truncations_def mostRecentCEntry_def)
next
  case (snoc x es)
  obtain i e where x: "x = (i, e)" by (cases x) auto
  from snoc.prems have wf: "wellFormedLog es" and ne: "e \<noteq> Persistent_unset"
    and fc: "isFEntry e \<longrightarrow> mostRecentCEntry es \<noteq> None"
    unfolding x wellFormedLog_snoc by simp_all
  note pre = snoc.IH[OF wf]
  let ?a = "fst (truncations (truncationPoints es) p)"
  let ?q = "snd (truncations (truncationPoints es) p)"
  show ?case
  proof (cases "isFEntry e")
    case False
    then have "recoverLogLoop [(i, e)] (mostRecentCEntry es) ?a ?q
                 = ([], Return (mostRecentCEntry (es @ [(i, e)]), ?a, ?q))"
      using ne by (cases e) (simp_all add: isFEntry_def mostRecentCEntry_snoc)
    then have "recoverLogLoop (es @ [(i, e)]) None [] p
                 = (map (\<lambda>s. Call ''persisted.truncate'' [s]) (truncationPoints es) @ [],
                    Return (mostRecentCEntry (es @ [(i, e)]), ?a, ?q))"
      unfolding recoverLogLoop_append pre by (simp only: prod.case result.case)
    moreover have "truncationPoints (es @ [(i, e)]) = truncationPoints es"
      using False by (simp add: truncationPoints_snoc)
    ultimately show ?thesis unfolding x by simp
  next
    case True
    then obtain f where e: "e = Persistent_FEntry f" by (cases e) (simp_all add: isFEntry_def)
    from fc True obtain c where c: "mostRecentCEntry es = Some c" by auto
    let ?t = "truncationOf (CEntry.SeqNo c) ?q"
    have one: "recoverLogLoop [(i, e)] (mostRecentCEntry es) ?a ?q
                 = ([Call ''persisted.truncate'' [CEntry.SeqNo c]],
                    Return (mostRecentCEntry (es @ [(i, e)]), ?a @ fst ?t, snd ?t))"
      unfolding e c
      by (simp add: assertNotEqualf_def mostRecentCEntry_snoc c truncatePersisted_truncationOf
            split: prod.splits)
    have "recoverLogLoop (es @ [(i, e)]) None [] p
                 = (map (\<lambda>s. Call ''persisted.truncate'' [s]) (truncationPoints es)
                      @ [Call ''persisted.truncate'' [CEntry.SeqNo c]],
                    Return (mostRecentCEntry (es @ [(i, e)]), ?a @ fst ?t, snd ?t))"
      unfolding recoverLogLoop_append pre using one by (simp only: prod.case result.case)
    moreover have "truncationPoints (es @ [(i, e)]) = truncationPoints es @ [CEntry.SeqNo c]"
      using True c by (simp add: truncationPoints_snoc)
    ultimately show ?thesis unfolding x by (simp add: truncations_snoc)
  qed
qed

text \<open>
  Claim C6, amended. An \<open>FEntry\<close> that no \<open>CEntry\<close> precedes makes \<open>recoverLog\<close> panic. On a
  well-formed log with a checkpoint entry, \<open>recoverLog\<close> returns; for each \<open>FEntry\<close>, in
  order, it calls \<open>persisted.truncate\<close> with the sequence number of the \<open>CEntry\<close> read
  last before it, and it returns the actions of these truncations and the log they
  leave. A truncation moves the head of the log to the first checkpoint entry at or
  above that sequence number (or \<open>NEntry\<close> above it) and returns the action that
  truncates the write-ahead log at that entry's index, except when that entry is the
  head already, or there is none: then it returns no action and leaves the log as it is.
\<close>

theorem recoverLog_walk:
  "(logHead p = pre @ (index, Persistent_FEntry fEntry) # post \<and> mostRecentCEntry pre = None
      \<longrightarrow> (\<exists>calls e. recoverLog p = (calls, Panic e)))
   \<and> (wellFormedLog (logHead p) \<and> mostRecentCEntry (logHead p) \<noteq> None
      \<longrightarrow> recoverLog p
            = (map (\<lambda>seqNo. Call ''persisted.truncate'' [seqNo]) (truncationPoints (logHead p)),
               Return (truncations (truncationPoints (logHead p)) p)))
   \<and> truncatePersisted lowWatermark p = truncationOf lowWatermark p"
proof (intro conjI impI)
  assume a: "logHead p = pre @ (index, Persistent_FEntry fEntry) # post \<and> mostRecentCEntry pre = None"
  then have "mostRecentCEntry pre = None" by simp
  from recoverLogLoop_FEntry_without_CEntry[OF this, of index fEntry post p] obtain calls e where
    "recoverLogLoop (logHead p) None [] p = (calls, Panic e)" using a by auto
  then show "\<exists>calls e. recoverLog p = (calls, Panic e)"
    by (simp add: recoverLog_def bindR_def)
next
  assume a: "wellFormedLog (logHead p) \<and> mostRecentCEntry (logHead p) \<noteq> None"
  then have wf: "wellFormedLog (logHead p)" by simp
  from a obtain c where c: "mostRecentCEntry (logHead p) = Some c" by auto
  show "recoverLog p
            = (map (\<lambda>seqNo. Call ''persisted.truncate'' [seqNo]) (truncationPoints (logHead p)),
               Return (truncations (truncationPoints (logHead p)) p))"
    by (simp add: recoverLog_def recoverLogLoop_wellFormed[OF wf] c bindR_def assertNotEqualf_def)
next
  show "truncatePersisted lowWatermark p = truncationOf lowWatermark p"
    by (rule truncatePersisted_truncationOf)
qed

lemma exLog_wellFormed: "wellFormedLog (logHead exLog)"
  by (simp add: wellFormedLog_def exLog_def less_Suc_eq nth_Cons' isFEntry_def
        mostRecentCEntry_def numeral_2_eq_2)

lemma exLongLog_wellFormed: "wellFormedLog (logHead exLongLog)"
  by (simp add: wellFormedLog_def exLongLog_def less_Suc_eq nth_Cons' isFEntry_def
        mostRecentCEntry_def numeral_3_eq_3 numeral_2_eq_2)

text \<open>
  The log of a fresh node, a checkpoint at sequence number 0 followed by an \<open>FEntry\<close>, is
  well formed and has an \<open>FEntry\<close>, yet \<open>recoverLog\<close> returns no action: the head of the
  log is already the entry \<open>persisted.truncate\<close> looks for.
\<close>

theorem recoverLog_emits_nothing_counterexample:
  "wellFormedLog (logHead exLog) \<and> isFEntry (snd (logHead exLog ! 1))
   \<and> recoverLog exLog = ([Call ''persisted.truncate'' [0]], Return ([], exLog))"
  by (simp add: exLog_wellFormed)
     (simp add: exLog_def isFEntry_def recoverLog_def exCEntry_def assertNotEqualf_def
        truncatePersisted_def bindR_def)

lemma exLongLog_points: "truncationPoints (logHead exLongLog) = [5]"
  by (simp add: truncationPoints_def exLongLog_def isFEntry_def mostRecentCEntry_def
        exCEntry_def upt_rec numeral_3_eq_3)

lemma exLongLog_truncations:
  "truncations [5] exLongLog
     = ([Write_Truncate 1],
        exLongLog\<lparr>logHead := [(1, Persistent_CEntry (exCEntry 5)), (2, Persistent_FEntry ())]\<rparr>)"
  by (simp add: truncations_def truncationOf_def keptAt_def exLongLog_def exCEntry_def)

text \<open>
  A log that starts with an \<open>FEntry\<close> panics. On the log with checkpoints at 0 and 5 the
  walk calls \<open>persisted.truncate\<close> once, with 5; the head moves to the checkpoint at 5,
  which has index 1, and the action truncates at 1. A truncation at 0 of the log that
  starts with the checkpoint at 0 returns nothing.
\<close>

theorem recoverLog_walk_witness:
  "logHead \<lparr>nextIndex = 1, logHead = [(0, Persistent_FEntry ())]\<rparr>
      = [] @ (0, Persistent_FEntry ()) # []
   \<and> mostRecentCEntry ([] :: (u64 \<times> unit Persistent) list) = None
   \<and> (\<exists>calls e. recoverLog \<lparr>nextIndex = 1, logHead = [(0, Persistent_FEntry ())]\<rparr>
                   = (calls, Panic e))
   \<and> wellFormedLog (logHead exLongLog) \<and> mostRecentCEntry (logHead exLongLog) \<noteq> None
   \<and> recoverLog exLongLog
       = ([Call ''persisted.truncate'' [5]],
          Return ([Write_Truncate 1],
                  exLongLog\<lparr>logHead := [(1, Persistent_CEntry (exCEntry 5)),
                                         (2, Persistent_FEntry ())]\<rparr>))
   \<and> truncatePersisted 5 exLongLog
       = ([Write_Truncate 1],
          exLongLog\<lparr>logHead := [(1, Persistent_CEntry (exCEntry 5)), (2, Persistent_FEntry ())]\<rparr>)
   \<and> truncatePersisted 0 exLog = ([], exLog)"
proof -
  have h1: "logHead \<lparr>nextIndex = 1, logHead = [(0, Persistent_FEntry ())]\<rparr>
      = [] @ (0, Persistent_FEntry ()) # []
   \<and> mostRecentCEntry ([] :: (u64 \<times> unit Persistent) list) = None"
    by (simp add: mostRecentCEntry_def)
  have h2: "wellFormedLog (logHead exLongLog) \<and> mostRecentCEntry (logHead exLongLog) \<noteq> None"
    by (simp add: exLongLog_wellFormed) (simp add: exLongLog_def mostRecentCEntry_def)
  note t1 = recoverLog_walk[of "\<lparr>nextIndex = 1, logHead = [(0, Persistent_FEntry ())]\<rparr>"
      "[]" 0 "()" "[]" 0]
  from t1[THEN conjunct1, rule_format, OF h1]
  have r1: "\<exists>calls e. recoverLog \<lparr>nextIndex = 1, logHead = [(0, Persistent_FEntry ())]\<rparr>
                   = (calls, Panic e)" .
  note t2 = recoverLog_walk[of exLongLog "[]" 0 "()" "[]" 5]
  from t2[THEN conjunct2, THEN conjunct1, rule_format, OF h2]
  have r2: "recoverLog exLongLog
       = ([Call ''persisted.truncate'' [5]],
          Return ([Write_Truncate 1],
                  exLongLog\<lparr>logHead := [(1, Persistent_CEntry (exCEntry 5)),
                                         (2, Persistent_FEntry ())]\<rparr>))"
    by (simp add: exLongLog_points exLongLog_truncations)
  from t2[THEN conjunct2, THEN conjunct2]
  have r3: "truncatePersisted 5 exLongLog
       = ([Write_Truncate 1],
          exLongLog\<lparr>logHead := [(1, Persistent_CEntry (exCEntry 5)), (2, Persistent_FEntry ())]\<rparr>)"
    by (simp add: truncationOf_def keptAt_def exLongLog_def exCEntry_def)
  note t3 = recoverLog_walk[of exLog "[]" 0 "()" "[]" 0]
  from t3[THEN conjunct2, THEN conjunct2]
  have r4: "truncatePersisted 0 exLog = ([], exLog)"
    by (simp add: truncationOf_def keptAt_def exLog_def exCEntry_def)
  from h1 h2 r1 r2 r3 r4 show ?thesis by (intro conjI) simp_all
qed

section \<open>The calls made by one event\<close>

lemma fst_bindP:
  "fst (bindP m f c) =
     fst (m c) @ (case snd (m c) of Some (Return (r, c')) \<Rightarrow> fst (f r c') | _ \<Rightarrow> [])"
  by (auto simp: bindP_def split: prod.splits option.splits result.splits)

lemma names_bindP:
  assumes "callName ` set (fst (m c)) \<subseteq> N" and "\<And>r c'. callName ` set (fst (f r c')) \<subseteq> N"
  shows "callName ` set (fst (bindP m f c)) \<subseteq> N"
proof (cases "snd (m c)")
  case None
  then show ?thesis using assms(1) by (simp add: fst_bindP)
next
  case (Some r)
  show ?thesis
  proof (cases r)
    case (Panic e)
    with Some show ?thesis using assms(1) by (simp add: fst_bindP)
  next
    case (Return x)
    obtain v c' where "x = (v, c')" by (cases x) auto
    with Some Return show ?thesis using assms(1) assms(2)[of v c']
      by (simp add: fst_bindP image_Un)
  qed
qed

lemma names_returnP [simp]: "fst (returnP r c) = []"
  by (simp add: returnP_def)

lemma names_panicP [simp]: "fst (panicP e c) = []"
  by (simp add: panicP_def)

lemma names_readW [simp]: "fst (readW f c) = []"
  by (simp add: readW_def)

lemma names_liftR [simp]: "fst (liftR r c) = []"
  by (simp add: liftR_def)

lemma names_onPersisted [simp]: "fst (onPersisted f c) = []"
  by (simp add: onPersisted_def)

lemma names_callP [simp]: "fst (callP name args m c) = [Call name args]"
  by (simp add: callP_def)

lemma drainLoop_names:
  "callName ` set (fst (drainLoop fuel ops c)) \<subseteq> {''commitState.drain'', ''epochTracker.advanceState''}"
proof (induction fuel arbitrary: c)
  case 0
  show ?case by simp
next
  case (Suc fuel)
  show ?case
    unfolding drainLoop.simps
  proof (rule names_bindP, simp, rule names_bindP, simp)
    fix r :: "'a list" and c' :: "('a, 'b) components" and r' :: "'a action list"
      and c'' :: "('a, 'b) components"
    show "callName ` set (fst ((if r' = [] then returnP (map Commit r)
             else bindP (drainLoop fuel ops) (\<lambda>acts. returnP (map Commit r @ r' @ acts))) c''))
          \<subseteq> {''commitState.drain'', ''epochTracker.advanceState''}"
    proof (cases "r' = []")
      case True
      then show ?thesis by simp
    next
      case False
      then show ?thesis
        by (simp del: drainLoop.simps) (rule names_bindP, rule Suc.IH, simp)
    qed
  qed
qed

lemma callsWithin_returnP: "callsWithin N (returnP r)"
  and callsWithin_panicP: "callsWithin N (panicP e)"
  and callsWithin_readW: "callsWithin N (readW f)"
  and callsWithin_liftR: "callsWithin N (liftR x)"
  and callsWithin_onPersisted: "callsWithin N (onPersisted g)"
  by (simp_all add: callsWithin_def)

lemma callsWithin_callP: "name \<in> N \<Longrightarrow> callsWithin N (callP name args m)"
  by (simp add: callsWithin_def)

lemma callsWithin_bindP:
  "callsWithin N m \<Longrightarrow> (\<And>r. callsWithin N (f r)) \<Longrightarrow> callsWithin N (bindP m f)"
  unfolding callsWithin_def by (intro allI names_bindP) auto

lemma callsWithin_if:
  "callsWithin N a \<Longrightarrow> callsWithin N b \<Longrightarrow> callsWithin N (if P then a else b)"
  by simp

lemma callsWithin_mono: "callsWithin N m \<Longrightarrow> N \<subseteq> M \<Longrightarrow> callsWithin M m"
  unfolding callsWithin_def by blast

lemmas callsWithin_intros =
  callsWithin_returnP callsWithin_panicP callsWithin_readW callsWithin_liftR
  callsWithin_onPersisted callsWithin_callP callsWithin_bindP callsWithin_if

lemma recoverLogLoop_names:
  "callName ` set (fst (recoverLogLoop es lc acts p)) \<subseteq> {''persisted.truncate''}"
proof (induction es arbitrary: lc acts p)
  case Nil
  show ?case by simp
next
  case (Cons x es)
  obtain i e where x: "x = (i, e)" by (cases x) auto
  show ?case
  proof (cases e)
    case (Persistent_FEntry f)
    show ?thesis
    proof (cases lc)
      case None
      then show ?thesis unfolding x Persistent_FEntry by (simp add: assertNotEqualf_def)
    next
      case (Some cE)
      obtain a p' where t: "truncatePersisted (CEntry.SeqNo cE) p = (a, p')"
        by (cases "truncatePersisted (CEntry.SeqNo cE) p") auto
      obtain calls r where l: "recoverLogLoop es (Some cE) (acts @ a) p' = (calls, r)"
        by (cases "recoverLogLoop es (Some cE) (acts @ a) p'") auto
      have "callName ` set calls \<subseteq> {''persisted.truncate''}"
        using Cons.IH[of "Some cE" "acts @ a" p'] l by simp
      then show ?thesis
        unfolding x Persistent_FEntry Some by (simp add: assertNotEqualf_def t l)
    qed
  qed (simp_all add: x Cons.IH)
qed

lemma recoverLog_names:
  "callName ` set (fst (recoverLog p)) \<subseteq> {''persisted.truncate''}"
proof -
  obtain calls r where l: "recoverLogLoop (logHead p) None [] p = (calls, r)"
    by (cases "recoverLogLoop (logHead p) None [] p") auto
  with recoverLogLoop_names[of "logHead p" None "[]" p] show ?thesis
    by (simp add: recoverLog_def)
qed

lemma step_early: "callsWithin (- lateNames) (step ops source msg)"
  unfolding step_def
  by (cases msg; simp; intro callsWithin_intros; simp add: lateNames_def)

lemma processCheckpointResult_early:
  "callsWithin (- lateNames) (processCheckpointResult ops r)"
  unfolding processCheckpointResult_def Let_def
  by (intro callsWithin_intros; simp add: lateNames_def)

lemma processCheckpoints_early: "callsWithin (- lateNames) (processCheckpoints ops rs)"
  by (induction rs) (simp_all add: callsWithin_intros processCheckpointResult_early)

lemma processHashResult_early: "callsWithin (- lateNames) (processHashResult ops r)"
  unfolding processHashResult_def
  by (cases r; simp; intro callsWithin_intros; simp add: lateNames_def)

lemma processDigests_early: "callsWithin (- lateNames) (processDigests ops rs)"
  by (induction rs) (simp_all add: callsWithin_intros processHashResult_early)

lemma processResults_early: "callsWithin (- lateNames) (processResults ops results)"
  unfolding processResults_def
  by (intro callsWithin_intros processCheckpoints_early processDigests_early)

lemma recoverLog_early:
  "callsWithin (- lateNames)
          (\<lambda>c. case recoverLog (persisted c) of
                  (calls, r) \<Rightarrow>
                    (calls, Some (bindR r (\<lambda>(acts, p'). Return (acts, c\<lparr>persisted := p'\<rparr>)))))"
  unfolding callsWithin_def
proof
  fix c :: "('a, 'b) components"
  obtain calls r where l: "recoverLog (persisted c) = (calls, r)"
    by (cases "recoverLog (persisted c)") auto
  with recoverLog_names[of "persisted c"]
  show "callName ` set (fst (case recoverLog (persisted c) of
                (calls, r) \<Rightarrow>
                  (calls, Some (bindR r (\<lambda>(acts, p'). Return (acts, c\<lparr>persisted := p'\<rparr>))))))
          \<subseteq> - lateNames"
    by (auto simp: lateNames_def)
qed

lemma reinitialize_early: "callsWithin (- lateNames) (reinitialize ops)"
  unfolding reinitialize_def
  by (intro callsWithin_intros recoverLog_early; simp add: lateNames_def)

lemma garbageCollectBlock_names:
  "distinct (map callName (fst (garbageCollectBlock ops c)))
   \<and> callName ` set (fst (garbageCollectBlock ops c)) \<subseteq> gcNames"
  unfolding garbageCollectBlock_def gcNames_def
  by (auto simp: fst_bindP readW_def returnP_def callP_def bindP_def
           split: option.splits result.splits prod.splits if_splits)

lemma gcShape_early: "callName ` set h \<subseteq> - lateNames \<Longrightarrow> gcShape h"
  unfolding gcShape_def by (rule exI[of _ h], rule exI[of _ "[]"], rule exI[of _ "[]"]) simp

lemma afterEvent_shape:
  assumes "callsWithin (- lateNames) handled"
  shows "gcShape (fst (afterEvent fuel ops handled c))"
proof -
  let ?h = "fst (handled c)"
  have h: "callName ` set ?h \<subseteq> - lateNames" using assms unfolding callsWithin_def by blast
  show ?thesis
  proof (cases "snd (handled c)")
    case None
    then have "fst (afterEvent fuel ops handled c) = ?h"
      by (simp add: afterEvent_def fst_bindP)
    with h show ?thesis by (simp add: gcShape_early)
  next
    case (Some r)
    show ?thesis
    proof (cases r)
      case (Panic e)
      with Some have "fst (afterEvent fuel ops handled c) = ?h"
        by (simp add: afterEvent_def fst_bindP)
      with h show ?thesis by (simp add: gcShape_early)
    next
      case (Return x)
      obtain a c1 where x: "x = (a, c1)" by (cases x) auto
      let ?g = "fst (garbageCollectBlock ops c1)"
      let ?l = "case snd (garbageCollectBlock ops c1) of
                  Some (Return (b, c2)) \<Rightarrow> fst (drainLoop fuel ops c2) | _ \<Rightarrow> []"
      have tr: "fst (afterEvent fuel ops handled c) = ?h @ ?g @ ?l"
        using Some Return x
        by (simp add: afterEvent_def fst_bindP split: option.splits result.splits)
      have l: "callName ` set ?l \<subseteq> loopNames"
      proof (cases "snd (garbageCollectBlock ops c1)")
        case None
        then show ?thesis by simp
      next
        case (Some r')
        show ?thesis
        proof (cases r')
          case (Panic e)
          with Some show ?thesis by simp
        next
          case (Return y)
          obtain b c2 where "y = (b, c2)" by (cases y) auto
          with Some Return drainLoop_names[of fuel ops c2] show ?thesis
            by (simp add: loopNames_def)
        qed
      qed
      show ?thesis
        unfolding gcShape_def tr
        using h l garbageCollectBlock_names[of ops c1] by blast
    qed
  qed
qed

lemma fst_runOn:
  "fst (runOn sm m) = (case components sm of None \<Rightarrow> [] | Some c \<Rightarrow> fst (m c))"
  by (auto simp: runOn_def split: option.splits prod.splits result.splits)

lemma runOn_shape:
  "(\<And>c. gcShape (fst (m c))) \<Longrightarrow> gcShape (fst (runOn sm m))"
  by (cases "components sm") (simp_all add: fst_runOn gcShape_early)

lemma callsWithin_shape: "callsWithin (- lateNames) m \<Longrightarrow> gcShape (fst (m c))"
  unfolding callsWithin_def by (simp add: gcShape_early)

lemma applyEvent_shape: "gcShape (fst (applyEvent fuel ops ev sm))"
proof (cases ev)
  case (StateEvent_Initialize x)
  then show ?thesis
    by (auto simp: applyEvent_def initialize_def gcShape_early split: result.splits prod.splits option.splits)
next
  case (StateEvent_LoadEntry i d)
  have "fst (applyPersisted i d sm) = []"
    by (auto simp: applyPersisted_def fst_runOn split: result.splits option.splits)
  then have "fst (applyEvent fuel ops ev sm) = []"
    unfolding StateEvent_LoadEntry
    by (cases "applyPersisted i d sm") (auto simp: applyEvent_def split: option.splits result.splits)
  then show ?thesis by (simp add: gcShape_early)
next
  case StateEvent_CompleteInitialization
  then show ?thesis
    by (auto simp: applyEvent_def completeInitialization_def gcShape_early
             intro!: runOn_shape callsWithin_shape reinitialize_early split: result.splits)
next
  case StateEvent_Tick
  have "callsWithin (- lateNames)
          (bindP (callP ''clientHashDisseminator.tick'' [] (chd_tick ops)) (\<lambda>acts.
           bindP (callP ''epochTracker.tick'' [] (et_tick ops)) (\<lambda>acts'.
           returnP (acts @ acts'))))"
    by (intro callsWithin_intros; simp add: lateNames_def)
  then show ?thesis unfolding StateEvent_Tick
    by (auto simp: applyEvent_def gcShape_early intro!: runOn_shape afterEvent_shape split: result.splits)
next
  case (StateEvent_Step source msg)
  then show ?thesis
    by (auto simp: applyEvent_def gcShape_early intro!: runOn_shape afterEvent_shape step_early
             split: result.splits)
next
  case (StateEvent_AddResults results)
  then show ?thesis
    by (auto simp: applyEvent_def gcShape_early
             intro!: runOn_shape afterEvent_shape processResults_early split: result.splits)
next
  case (StateEvent_AddClientResults reqs)
  have "callsWithin (- lateNames)
          (callP ''clientHashDisseminator.applyNewRequests'' [] (chd_applyNewRequests ops reqs))"
    by (intro callsWithin_intros; simp add: lateNames_def)
  then show ?thesis unfolding StateEvent_AddClientResults
    by (auto simp: applyEvent_def gcShape_early intro!: runOn_shape afterEvent_shape split: result.splits)
next
  case (StateEvent_Transfer cEntry)
  have "callsWithin (- lateNames)
          (bindP (readW (cs_transferring ops)) (\<lambda>transferring.
             bindP (liftR (assertEqualf (Boxed transferring) (Boxed True)
                             ''state transfer event received but the state machine did not request transfer''))
               (\<lambda>_.
             bindP (onPersisted (addCEntry cEntry)) (\<lambda>acts.
             bindP (reinitialize ops) (\<lambda>acts'. returnP (acts @ acts'))))))"
    by (intro callsWithin_intros reinitialize_early)
  then show ?thesis unfolding StateEvent_Transfer
    by (auto simp: applyEvent_def intro!: runOn_shape afterEvent_shape)
next
  case StateEvent_ActionsReceived
  then show ?thesis by (simp add: applyEvent_def gcShape_early)
next
  case StateEvent_ClientActionsReceived
  then show ?thesis by (simp add: applyEvent_def gcShape_early)
next
  case StateEvent_unset
  then show ?thesis by (simp add: applyEvent_def gcShape_early)
qed

lemma filter_name_distinct:
  "distinct (map callName xs) \<Longrightarrow> length (filter (\<lambda>c. callName c = n) xs) \<le> 1"
proof (induction xs)
  case Nil
  show ?case by simp
next
  case (Cons x xs)
  show ?case
  proof (cases "callName x = n")
    case True
    with Cons.prems have "n \<notin> callName ` set xs" by auto
    then have "filter (\<lambda>c. callName c = n) xs = []"
      by (auto simp: filter_empty_conv)
    with True show ?thesis by simp
  next
    case False
    with Cons show ?thesis by simp
  qed
qed

lemma filter_name_absent:
  "n \<notin> callName ` set xs \<Longrightarrow> filter (\<lambda>c. callName c = n) xs = []"
  by (auto simp: filter_empty_conv)

lemma split_in_second:
  assumes "xs @ ys = pre @ d # post" and "d \<notin> set xs"
  shows "\<exists>q. ys = q @ d # post"
proof -
  from assms(1) obtain us where
    "(xs = pre @ us \<and> us @ ys = d # post) \<or> (xs @ us = pre \<and> ys = us @ d # post)"
    unfolding append_eq_append_conv2 by blast
  then show ?thesis
  proof
    assume a: "xs = pre @ us \<and> us @ ys = d # post"
    show ?thesis
    proof (cases us)
      case Nil
      with a show ?thesis by auto
    next
      case (Cons u us')
      with a have "u = d" by simp
      with a Cons assms(2) show ?thesis by simp
    qed
  next
    assume "xs @ us = pre \<and> ys = us @ d # post"
    then show ?thesis by blast
  qed
qed

lemma split_in_first:
  assumes "xs @ ys = pre @ d # post" and "d \<notin> set ys"
  shows "\<exists>post'. xs = pre @ d # post' \<and> post = post' @ ys"
proof -
  from assms(1) obtain us where
    "(xs = pre @ us \<and> us @ ys = d # post) \<or> (xs @ us = pre \<and> ys = us @ d # post)"
    unfolding append_eq_append_conv2 by blast
  then show ?thesis
  proof
    assume a: "xs = pre @ us \<and> us @ ys = d # post"
    show ?thesis
    proof (cases us)
      case Nil
      with a assms(2) show ?thesis by auto
    next
      case (Cons u us')
      with a show ?thesis by auto
    qed
  next
    assume "xs @ us = pre \<and> ys = us @ d # post"
    with assms(2) show ?thesis by auto
  qed
qed

lemma callsOf_append: "callsOf n (xs @ ys) = callsOf n xs @ callsOf n ys"
  by (simp add: callsOf_def)

lemma callsOf_absent: "n \<notin> callName ` set xs \<Longrightarrow> callsOf n xs = []"
  unfolding callsOf_def by (rule filter_name_absent)

lemma callsOf_distinct: "distinct (map callName xs) \<Longrightarrow> length (callsOf n xs) \<le> 1"
  unfolding callsOf_def by (rule filter_name_distinct)

lemma gcShape_counts:
  assumes "gcShape tr" and "n \<in> lateNames" and "n \<notin> loopNames"
  shows "length (callsOf n tr) \<le> 1"
proof -
  from assms(1) obtain h g l where tr: "tr = h @ g @ l"
    and h: "callName ` set h \<subseteq> - lateNames"
    and g: "distinct (map callName g)" and l: "callName ` set l \<subseteq> loopNames"
    unfolding gcShape_def by auto
  have "n \<notin> callName ` set h" using h assms(2) by blast
  then have a: "callsOf n h = []" by (rule callsOf_absent)
  have "n \<notin> callName ` set l" using l assms(3) by blast
  then have b: "callsOf n l = []" by (rule callsOf_absent)
  have c: "length (callsOf n g) \<le> 1" using g by (rule callsOf_distinct)
  show ?thesis unfolding tr callsOf_append a b using c by simp
qed

lemma not_in_by_name: "callName ` set xs \<subseteq> N \<Longrightarrow> callName d \<notin> N \<Longrightarrow> d \<notin> set xs"
  by (meson imageI subsetD)

lemma drain_late: "''commitState.drain'' \<in> lateNames"
  and drain_not_gc: "''commitState.drain'' \<notin> gcNames"
  and collect_late: "''checkpointTracker.garbageCollect'' \<in> lateNames"
  and collect_not_loop: "''checkpointTracker.garbageCollect'' \<notin> loopNames"
  and truncate_not_loop: "''persisted.truncate'' \<notin> loopNames"
  by (simp_all add: lateNames_def gcNames_def loopNames_def)

lemma gcShape_after_drain:
  assumes "gcShape tr" and "tr = pre @ Call ''commitState.drain'' [] # post"
  shows "callName ` set post \<subseteq> loopNames"
proof -
  let ?d = "Call ''commitState.drain'' []"
  from assms(1) obtain h g l where tr: "tr = h @ g @ l"
    and h: "callName ` set h \<subseteq> - lateNames"
    and g: "callName ` set g \<subseteq> gcNames" and l: "callName ` set l \<subseteq> loopNames"
    unfolding gcShape_def by auto
  have "?d \<notin> set h" using h by (rule not_in_by_name) (simp add: drain_late)
  moreover have "?d \<notin> set g" using g by (rule not_in_by_name) (simp add: drain_not_gc)
  ultimately have n: "?d \<notin> set (h @ g)" by simp
  have e: "(h @ g) @ l = pre @ ?d # post"
    using tr assms(2) by simp
  from split_in_second[OF e n] obtain q where q: "l = q @ ?d # post" ..
  have "set post \<subseteq> set l" unfolding q by auto
  then show ?thesis using l by (meson image_mono subset_trans)
qed

lemma gcShape_after_collect:
  assumes "gcShape tr" and "tr = pre @ Call ''checkpointTracker.garbageCollect'' [] # post"
  shows "length (callsOf ''persisted.truncate'' post) \<le> 1"
proof -
  let ?d = "Call ''checkpointTracker.garbageCollect'' []"
  from assms(1) obtain h g l where tr: "tr = h @ g @ l"
    and h: "callName ` set h \<subseteq> - lateNames"
    and g: "distinct (map callName g)" and l: "callName ` set l \<subseteq> loopNames"
    unfolding gcShape_def by auto
  have n: "?d \<notin> set h" using h by (rule not_in_by_name) (simp add: collect_late)
  have e: "h @ (g @ l) = pre @ ?d # post" using tr assms(2) by simp
  from split_in_second[OF e n] obtain q where q: "g @ l = q @ ?d # post" ..
  have n': "?d \<notin> set l" using l by (rule not_in_by_name) (simp add: collect_not_loop)
  from split_in_first[OF q n'] obtain post' where p: "g = q @ ?d # post'" "post = post' @ l"
    by auto
  have "''persisted.truncate'' \<notin> callName ` set l" using l truncate_not_loop by auto
  then have a: "callsOf ''persisted.truncate'' l = []" by (rule callsOf_absent)
  have "distinct (map callName post')" using g unfolding p(1) by simp
  then have "length (callsOf ''persisted.truncate'' post') \<le> 1" by (rule callsOf_distinct)
  then show ?thesis unfolding p(2) callsOf_append a by simp
qed

text \<open>
  Claim C5. In the trace of one \<open>applyEvent\<close>, \<open>checkpointTracker.garbageCollect\<close>,
  \<open>batchTracker.truncate\<close> and \<open>epochTracker.moveLowWatermark\<close> are each called at most
  once; after the call of \<open>checkpointTracker.garbageCollect\<close> the log is truncated at most
  once; and once \<open>commitState.drain\<close> has been called, that is inside the closing loop,
  only \<open>commitState.drain\<close> and \<open>epochTracker.advanceState\<close> are called.
\<close>

theorem garbage_collection_at_most_once:
  "length (callsOf ''checkpointTracker.garbageCollect'' (fst (applyEvent fuel ops ev sm))) \<le> 1
   \<and> length (callsOf ''batchTracker.truncate'' (fst (applyEvent fuel ops ev sm))) \<le> 1
   \<and> length (callsOf ''epochTracker.moveLowWatermark'' (fst (applyEvent fuel ops ev sm))) \<le> 1
   \<and> (\<forall>pre post. fst (applyEvent fuel ops ev sm)
                     = pre @ Call ''checkpointTracker.garbageCollect'' [] # post
          \<longrightarrow> length (callsOf ''persisted.truncate'' post) \<le> 1)
   \<and> (\<forall>pre post. fst (applyEvent fuel ops ev sm) = pre @ Call ''commitState.drain'' [] # post
          \<longrightarrow> callName ` set post \<subseteq> {''commitState.drain'', ''epochTracker.advanceState''})"
proof -
  have s: "gcShape (fst (applyEvent fuel ops ev sm))" by (rule applyEvent_shape)
  have c1: "length (callsOf ''checkpointTracker.garbageCollect'' (fst (applyEvent fuel ops ev sm))) \<le> 1"
    by (rule gcShape_counts[OF s]) (simp_all add: lateNames_def loopNames_def)
  have c2: "length (callsOf ''batchTracker.truncate'' (fst (applyEvent fuel ops ev sm))) \<le> 1"
    by (rule gcShape_counts[OF s]) (simp_all add: lateNames_def loopNames_def)
  have c3: "length (callsOf ''epochTracker.moveLowWatermark'' (fst (applyEvent fuel ops ev sm))) \<le> 1"
    by (rule gcShape_counts[OF s]) (simp_all add: lateNames_def loopNames_def)
  have c4: "\<forall>pre post. fst (applyEvent fuel ops ev sm)
                     = pre @ Call ''checkpointTracker.garbageCollect'' [] # post
          \<longrightarrow> length (callsOf ''persisted.truncate'' post) \<le> 1"
    using gcShape_after_collect[OF s] by blast
  have c5: "\<forall>pre post. fst (applyEvent fuel ops ev sm) = pre @ Call ''commitState.drain'' [] # post
          \<longrightarrow> callName ` set post \<subseteq> {''commitState.drain'', ''epochTracker.advanceState''}"
    using gcShape_after_drain[OF s] unfolding loopNames_def by blast
  from c1 c2 c3 c4 c5 show ?thesis by blast
qed

section \<open>Checkpoint results\<close>

lemma bindP_returnP_left: "bindP (returnP x) f c = f x c"
  by (simp add: bindP_def returnP_def split: prod.splits)

lemma bindP_returnP_right: "bindP m (\<lambda>a. returnP a) c = m c"
  by (auto simp: bindP_def returnP_def split: prod.splits option.splits result.splits)

lemma bindP_readW: "bindP (readW f) g c = g (f (world c)) c"
  by (simp add: bindP_def readW_def split: prod.splits)

lemma bindP_liftR_Return: "bindP (liftR (Return x)) g c = g x c"
  by (simp add: bindP_def liftR_def bindR_def split: prod.splits)

lemma bindP_liftR_Panic: "bindP (liftR (Panic e)) g c = ([], Some (Panic e))"
  by (simp add: bindP_def liftR_def bindR_def split: prod.splits)

lemma bindP_callP:
  "bindP (callP name args m) g c =
     (case m c of
        Panic e \<Rightarrow> ([Call name args], Some (Panic e))
      | Return (r, c') \<Rightarrow> (Call name args # fst (g r c'), snd (g r c')))"
  by (auto simp: bindP_def callP_def split: prod.splits option.splits result.splits)

lemma processCheckpointResult_body:
  "(CheckpointResult.SeqNo r < cs_lowWatermark ops (world c)
      \<longrightarrow> processCheckpointResult ops r c = ([], Some (Return ([], c)))
          \<and> processCheckpoints ops (r # rs) c = processCheckpoints ops rs c)
   \<and> (\<not> CheckpointResult.SeqNo r < cs_lowWatermark ops (world c)
       \<and> CheckpointResult.SeqNo r
           \<noteq> cs_lowWatermark ops (world c) + scast (cs_CheckpointInterval ops (world c))
      \<longrightarrow> (\<exists>text. processCheckpointResult ops r c = ([], Some (Panic (AssertionFailed text)))))
   \<and> (\<not> CheckpointResult.SeqNo r < cs_lowWatermark ops (world c)
       \<and> CheckpointResult.SeqNo r
           = cs_lowWatermark ops (world c) + scast (cs_CheckpointInterval ops (world c))
      \<longrightarrow> (\<exists>tr res. processCheckpointResult ops r c
                       = (Call ''commitState.applyCheckpointResult'' [CheckpointResult.SeqNo r] # tr, res)
            \<and> (\<forall>e. cs_applyCheckpointResult ops (et_activeEpochConfig ops (world c)) r c = Panic e
                   \<longrightarrow> tr = [] \<and> res = Some (Panic e))
            \<and> (\<forall>acts c'. cs_applyCheckpointResult ops (et_activeEpochConfig ops (world c)) r c
                             = Return (acts, c')
                           \<and> \<not> cs_stopAtSeqNo ops (world c) < cs_stopAtSeqNo ops (world c')
                   \<longrightarrow> tr = [] \<and> res = Some (Return (acts, c')))
            \<and> (\<forall>acts c'. cs_applyCheckpointResult ops (et_activeEpochConfig ops (world c)) r c
                             = Return (acts, c')
                           \<and> cs_stopAtSeqNo ops (world c) < cs_stopAtSeqNo ops (world c')
                   \<longrightarrow> (\<exists>tr'. tr = Call ''clientTracker.allocate'' [CheckpointResult.SeqNo r] # tr'))))"
proof (intro conjI impI)
  assume a: "CheckpointResult.SeqNo r < cs_lowWatermark ops (world c)"
  then show s: "processCheckpointResult ops r c = ([], Some (Return ([], c)))"
    by (simp add: processCheckpointResult_def bindP_readW returnP_def)
  have "processCheckpoints ops (r # rs) c
          = bindP (processCheckpoints ops rs) (\<lambda>acts'. returnP ([] @ acts')) c"
    using s by (simp add: bindP_def)
  then show "processCheckpoints ops (r # rs) c = processCheckpoints ops rs c"
    by (simp add: bindP_returnP_right)
next
  assume "\<not> CheckpointResult.SeqNo r < cs_lowWatermark ops (world c)
       \<and> CheckpointResult.SeqNo r
           \<noteq> cs_lowWatermark ops (world c) + scast (cs_CheckpointInterval ops (world c))"
  then show "\<exists>text. processCheckpointResult ops r c = ([], Some (Panic (AssertionFailed text)))"
    by (auto simp: processCheckpointResult_def bindP_readW Let_def assertEqualf_def
          bindP_liftR_Panic)
next
  assume a: "\<not> CheckpointResult.SeqNo r < cs_lowWatermark ops (world c)
       \<and> CheckpointResult.SeqNo r
           = cs_lowWatermark ops (world c) + scast (cs_CheckpointInterval ops (world c))"
  let ?m = "cs_applyCheckpointResult ops (et_activeEpochConfig ops (world c)) r"
  have p: "processCheckpointResult ops r c =
        bindP (callP ''commitState.applyCheckpointResult'' [CheckpointResult.SeqNo r] ?m)
          (\<lambda>acts. bindP (readW (cs_stopAtSeqNo ops)) (\<lambda>stopAtSeqNo.
             if cs_stopAtSeqNo ops (world c) < stopAtSeqNo
             then
               bindP (callP ''clientTracker.allocate'' [CheckpointResult.SeqNo r]
                        (ct_allocate ops (CheckpointResult.SeqNo r)
                           (CheckpointResult.NetworkState r))) (\<lambda>_.
               bindP (callP ''clientHashDisseminator.allocate''
                        [CheckpointResult.SeqNo r]
                        (chd_allocate ops (CheckpointResult.SeqNo r)
                           (CheckpointResult.NetworkState r))) (\<lambda>acts'.
               returnP (acts @ acts')))
             else returnP acts)) c"
  proof -
    from a have a1: "\<not> CheckpointResult.SeqNo r < cs_lowWatermark ops (world c)"
      by (rule conjunct1)
    from a have "CheckpointResult.SeqNo r
                   = cs_lowWatermark ops (world c) + scast (cs_CheckpointInterval ops (world c))"
      by (rule conjunct2)
    then have a2: "cs_lowWatermark ops (world c) + scast (cs_CheckpointInterval ops (world c))
                 = CheckpointResult.SeqNo r"
      by (rule sym)
    show ?thesis
      by (simp add: processCheckpointResult_def bindP_readW Let_def assertEqualf_def
            bindP_liftR_Return a1 a2)
  qed
  show "\<exists>tr res. processCheckpointResult ops r c
                       = (Call ''commitState.applyCheckpointResult'' [CheckpointResult.SeqNo r] # tr, res)
            \<and> (\<forall>e. ?m c = Panic e \<longrightarrow> tr = [] \<and> res = Some (Panic e))
            \<and> (\<forall>acts c'. ?m c = Return (acts, c')
                           \<and> \<not> cs_stopAtSeqNo ops (world c) < cs_stopAtSeqNo ops (world c')
                   \<longrightarrow> tr = [] \<and> res = Some (Return (acts, c')))
            \<and> (\<forall>acts c'. ?m c = Return (acts, c')
                           \<and> cs_stopAtSeqNo ops (world c) < cs_stopAtSeqNo ops (world c')
                   \<longrightarrow> (\<exists>tr'. tr = Call ''clientTracker.allocate'' [CheckpointResult.SeqNo r] # tr'))"
  proof (cases "?m c")
    case (Panic e)
    then show ?thesis unfolding p by (simp add: bindP_callP)
  next
    case (Return x)
    obtain acts c' where x: "x = (acts, c')" by (cases x) auto
    show ?thesis
      unfolding p using Return x
      by (auto simp: bindP_callP bindP_readW returnP_def split: result.splits)
  qed
qed

lemma bindP_Panic: "m c = (tr, Some (Panic e)) \<Longrightarrow> bindP m f c = (tr, Some (Panic e))"
  by (simp add: bindP_def)

lemma bindP_Return:
  "m c = (tr, Some (Return (r, c'))) \<Longrightarrow> bindP m f c = (tr @ fst (f r c'), snd (f r c'))"
  by (simp add: bindP_def split: prod.splits)

lemma bindP_same: "m c = m' c \<Longrightarrow> bindP m f c = bindP m' f c"
  by (simp add: bindP_def)

lemma bindP_Return_cases:
  assumes "bindP m f c = (tr, Some (Return (r, c')))"
  obtains t1 x c1 t2 where "m c = (t1, Some (Return (x, c1)))"
    and "f x c1 = (t2, Some (Return (r, c')))" and "tr = t1 @ t2"
  using assms
  by (auto simp: bindP_def split: prod.splits option.splits result.splits)

lemma processCheckpoints_after:
  assumes "processCheckpoints ops pre c = (tr, Some (Return (acts, c')))"
  shows "processCheckpoints ops (pre @ rest) c =
           (tr @ fst (processCheckpoints ops rest c'),
            (case snd (processCheckpoints ops rest c') of
               None \<Rightarrow> None
             | Some (Panic e) \<Rightarrow> Some (Panic e)
             | Some (Return (acts', c'')) \<Rightarrow> Some (Return (acts @ acts', c''))))"
  using assms
proof (induction pre arbitrary: c tr acts)
  case Nil
  then have "tr = []" "acts = []" "c' = c" by (simp_all add: returnP_def)
  then show ?case
    by (cases "processCheckpoints ops rest c")
       (auto split: option.splits result.splits)
next
  case (Cons x pre)
  from Cons.prems have "bindP (processCheckpointResult ops x)
      (\<lambda>acts. bindP (processCheckpoints ops pre) (\<lambda>acts'. returnP (acts @ acts'))) c
        = (tr, Some (Return (acts, c')))" by simp
  then obtain t1 a1 c1 t2 where
    b: "processCheckpointResult ops x c = (t1, Some (Return (a1, c1)))"
    and r: "bindP (processCheckpoints ops pre) (\<lambda>acts'. returnP (a1 @ acts')) c1
              = (t2, Some (Return (acts, c')))"
    and tr: "tr = t1 @ t2"
    by (rule bindP_Return_cases)
  from r obtain t3 a2 c2 t4 where
    p: "processCheckpoints ops pre c1 = (t3, Some (Return (a2, c2)))"
    and q: "returnP (a1 @ a2) c2 = (t4, Some (Return (acts, c')))"
    and t2: "t2 = t3 @ t4"
    by (rule bindP_Return_cases)
  from q have e: "t4 = []" "acts = a1 @ a2" "c2 = c'" by (simp_all add: returnP_def)
  note ih = Cons.IH[OF p[unfolded e(3)]]
  have "processCheckpoints ops ((x # pre) @ rest) c
          = bindP (processCheckpointResult ops x)
              (\<lambda>acts. bindP (processCheckpoints ops (pre @ rest))
                        (\<lambda>acts'. returnP (acts @ acts'))) c" by simp
  also have "\<dots> = (t1 @ fst (bindP (processCheckpoints ops (pre @ rest))
                                (\<lambda>acts'. returnP (a1 @ acts')) c1),
                    snd (bindP (processCheckpoints ops (pre @ rest))
                                (\<lambda>acts'. returnP (a1 @ acts')) c1))"
    using b by (rule bindP_Return[where m = "processCheckpointResult ops x"])
  also have "bindP (processCheckpoints ops (pre @ rest)) (\<lambda>acts'. returnP (a1 @ acts')) c1
          = (t3 @ fst (processCheckpoints ops rest c'),
             (case snd (processCheckpoints ops rest c') of
                None \<Rightarrow> None
              | Some (Panic e) \<Rightarrow> Some (Panic e)
              | Some (Return (acts', c'')) \<Rightarrow> Some (Return ((a1 @ a2) @ acts', c''))))"
    unfolding bindP_def ih
    by (auto simp: returnP_def split: option.splits result.splits prod.splits)
  finally show ?case unfolding tr t2 e by simp
qed

lemma applyEvent_AddResults:
  assumes "state sm = smInitialized" and "components sm = Some c"
  shows "applyEvent fuel ops (StateEvent_AddResults results) sm
           = (fst (afterEvent fuel ops (processResults ops results) c),
              (case snd (afterEvent fuel ops (processResults ops results) c) of
                 None \<Rightarrow> None
               | Some (Panic e) \<Rightarrow> Some (Panic e)
               | Some (Return (acts, c')) \<Rightarrow> Some (Return (acts, sm\<lparr>components := Some c'\<rparr>))))"
  using assms
  by (auto simp: applyEvent_def assertInitialized_def assertEqualf_def runOn_def
           split: prod.splits option.splits result.splits)

lemma afterEvent_same:
  "handled c = handled' c \<Longrightarrow> afterEvent fuel ops handled c = afterEvent fuel ops handled' c"
  unfolding afterEvent_def by (rule bindP_same)

lemma processResults_through:
  fixes results :: "'x ActionResults"
  assumes "processCheckpoints ops (Checkpoints results) c = (t, res)"
  shows "\<exists>rest. fst (afterEvent fuel ops (processResults ops results) c) = t @ rest
          \<and> (\<forall>e. res = Some (Panic e)
                \<longrightarrow> afterEvent fuel ops (processResults ops results) c = (t, Some (Panic e)))"
proof -
  have f: "fst (afterEvent fuel ops (processResults ops results) c)
             = t @ (case res of Some (Return (r, c')) \<Rightarrow>
                      fst (bindP (processDigests ops (Digests results))
                             (\<lambda>acts'. returnP (r @ acts')) c')
                    | _ \<Rightarrow> [])
                 @ (case snd (processResults ops results c) of
                      Some (Return (r, c')) \<Rightarrow>
                        fst (bindP (garbageCollectBlock ops) (\<lambda>acts'.
                             bindP (drainLoop fuel ops) (\<lambda>acts''. returnP (r @ acts' @ acts''))) c')
                    | _ \<Rightarrow> [])"
    unfolding afterEvent_def fst_bindP[of "processResults ops results"]
    unfolding processResults_def fst_bindP[of "processCheckpoints ops (Checkpoints results)"] assms
    by simp
  have p: "\<forall>e. res = Some (Panic e)
             \<longrightarrow> afterEvent fuel ops (processResults ops results) c = (t, Some (Panic e))"
  proof (intro allI impI)
    fix e assume "res = Some (Panic e)"
    with assms have "processCheckpoints ops (Checkpoints results) c = (t, Some (Panic e))" by simp
    then have "processResults ops results c = (t, Some (Panic e))"
      unfolding processResults_def by (rule bindP_Panic)
    then show "afterEvent fuel ops (processResults ops results) c = (t, Some (Panic e))"
      unfolding afterEvent_def by (rule bindP_Panic)
  qed
  from f p show ?thesis by blast
qed

lemmas checkpoint_stale = processCheckpointResult_body[THEN conjunct1, rule_format]
  and checkpoint_wrong = processCheckpointResult_body[THEN conjunct2, THEN conjunct1, rule_format]
  and checkpoint_applied = processCheckpointResult_body[THEN conjunct2, THEN conjunct2, rule_format]

lemma processCheckpoints_stale:
  assumes "\<forall>p \<in> set pre. CheckpointResult.SeqNo p < cs_lowWatermark ops (world c)"
  shows "processCheckpoints ops pre c = ([], Some (Return ([], c)))"
  using assms
proof (induction pre)
  case Nil
  show ?case by (simp add: returnP_def)
next
  case (Cons p pre)
  then have "CheckpointResult.SeqNo p < cs_lowWatermark ops (world c)" by simp
  with processCheckpointResult_body[of p ops c pre]
  have "processCheckpoints ops (p # pre) c = processCheckpoints ops pre c" by blast
  with Cons show ?case by simp
qed

text \<open>
  Claim C3. Take an \<open>AddResults\<close> event on an initialized state machine, and a checkpoint
  result \<open>r\<close> of it that the loop of \<open>processResults\<close> reaches, with trace \<open>tr\<close> and
  components \<open>c'\<close> (these are the empty trace and the components of the state machine when
  the results before \<open>r\<close> are all stale). If the sequence number of \<open>r\<close> is below the low
  watermark of the commit state, \<open>r\<close> is skipped: the event does exactly what it does
  without \<open>r\<close>. Otherwise, if the sequence number is not the low watermark plus the
  checkpoint interval, the event fails the assertion, with no further call. At exactly
  that sequence number, the next call of the event is
  \<open>commitState.applyCheckpointResult\<close> for \<open>r\<close>; the event panics if that call does; and
  if the call moved \<open>stopAtSeqNo\<close> forward, the client tracker is asked to allocate next,
  else the loop body ends with that one call.
\<close>

theorem addResults_checkpoint_cases:
  fixes results :: "'x ActionResults"
  assumes init: "state sm = smInitialized" and comp: "components sm = Some c"
    and split: "Checkpoints results = pre @ r # post"
    and reach: "processCheckpoints ops pre c = (tr, Some (Return (acts, c')))"
  shows "((\<forall>p \<in> set pre. CheckpointResult.SeqNo p < cs_lowWatermark ops (world c))
            \<longrightarrow> tr = [] \<and> acts = [] \<and> c' = c)
       \<and> (CheckpointResult.SeqNo r < cs_lowWatermark ops (world c')
            \<longrightarrow> processCheckpointResult ops r c' = ([], Some (Return ([], c')))
                \<and> applyEvent fuel ops (StateEvent_AddResults results) sm
                    = applyEvent fuel ops
                        (StateEvent_AddResults (results\<lparr>Checkpoints := pre @ post\<rparr>)) sm)
       \<and> (\<not> CheckpointResult.SeqNo r < cs_lowWatermark ops (world c')
           \<and> CheckpointResult.SeqNo r
               \<noteq> cs_lowWatermark ops (world c') + scast (cs_CheckpointInterval ops (world c'))
            \<longrightarrow> (\<exists>text. applyEvent fuel ops (StateEvent_AddResults results) sm
                           = (tr, Some (Panic (AssertionFailed text)))))
       \<and> (\<not> CheckpointResult.SeqNo r < cs_lowWatermark ops (world c')
           \<and> CheckpointResult.SeqNo r
               = cs_lowWatermark ops (world c') + scast (cs_CheckpointInterval ops (world c'))
            \<longrightarrow> (\<exists>tr' res. applyEvent fuel ops (StateEvent_AddResults results) sm
                     = (tr @ Call ''commitState.applyCheckpointResult'' [CheckpointResult.SeqNo r]
                             # tr', res)
                \<and> (\<forall>e. cs_applyCheckpointResult ops (et_activeEpochConfig ops (world c')) r c'
                          = Panic e
                       \<longrightarrow> tr' = [] \<and> res = Some (Panic e))
                \<and> (\<forall>acts' c''. cs_applyCheckpointResult ops (et_activeEpochConfig ops (world c')) r c'
                          = Return (acts', c'')
                        \<and> cs_stopAtSeqNo ops (world c') < cs_stopAtSeqNo ops (world c'')
                       \<longrightarrow> (\<exists>tr''. tr' = Call ''clientTracker.allocate''
                                              [CheckpointResult.SeqNo r] # tr''))
                \<and> (\<forall>acts' c''. cs_applyCheckpointResult ops (et_activeEpochConfig ops (world c')) r c'
                          = Return (acts', c'')
                        \<and> \<not> cs_stopAtSeqNo ops (world c') < cs_stopAtSeqNo ops (world c'')
                       \<longrightarrow> processCheckpointResult ops r c'
                            = ([Call ''commitState.applyCheckpointResult''
                                  [CheckpointResult.SeqNo r]],
                               Some (Return (acts', c''))))))"
proof (intro conjI impI)
  assume "\<forall>p \<in> set pre. CheckpointResult.SeqNo p < cs_lowWatermark ops (world c)"
  then have "processCheckpoints ops pre c = ([], Some (Return ([], c)))"
    by (rule processCheckpoints_stale)
  with reach show "tr = []" "acts = []" "c' = c" by simp_all
next
  assume a: "CheckpointResult.SeqNo r < cs_lowWatermark ops (world c')"
  with processCheckpointResult_body[of r ops c' post]
  show b: "processCheckpointResult ops r c' = ([], Some (Return ([], c')))"
    by blast
  from a processCheckpointResult_body[of r ops c' post]
  have s: "processCheckpoints ops (r # post) c' = processCheckpoints ops post c'" by blast
  have "processCheckpoints ops (pre @ r # post) c = processCheckpoints ops (pre @ post) c"
    unfolding processCheckpoints_after[OF reach] s ..
  then have "processResults ops results c
               = processResults ops (results\<lparr>Checkpoints := pre @ post\<rparr>) c"
    unfolding processResults_def split by (simp add: bindP_def)
  then have "afterEvent fuel ops (processResults ops results) c
               = afterEvent fuel ops (processResults ops (results\<lparr>Checkpoints := pre @ post\<rparr>)) c"
    by (rule afterEvent_same)
  then show "applyEvent fuel ops (StateEvent_AddResults results) sm
               = applyEvent fuel ops
                   (StateEvent_AddResults (results\<lparr>Checkpoints := pre @ post\<rparr>)) sm"
    unfolding applyEvent_AddResults[OF init comp] by simp
next
  assume "\<not> CheckpointResult.SeqNo r < cs_lowWatermark ops (world c')
           \<and> CheckpointResult.SeqNo r
               \<noteq> cs_lowWatermark ops (world c') + scast (cs_CheckpointInterval ops (world c'))"
  from checkpoint_wrong[OF this] obtain message where
    b: "processCheckpointResult ops r c' = ([], Some (Panic (AssertionFailed message)))" ..
  have "processCheckpoints ops (r # post) c' = ([], Some (Panic (AssertionFailed message)))"
    using b by (simp add: bindP_def)
  then have "processCheckpoints ops (Checkpoints results) c
               = (tr, Some (Panic (AssertionFailed message)))"
    unfolding split processCheckpoints_after[OF reach] by simp
  from processResults_through[OF this, of fuel]
  have "afterEvent fuel ops (processResults ops results) c
          = (tr, Some (Panic (AssertionFailed message)))" by blast
  then have "applyEvent fuel ops (StateEvent_AddResults results) sm
               = (tr, Some (Panic (AssertionFailed message)))"
    unfolding applyEvent_AddResults[OF init comp] by simp
  then show "\<exists>text. applyEvent fuel ops (StateEvent_AddResults results) sm
                     = (tr, Some (Panic (AssertionFailed text)))" ..
next
  let ?m = "cs_applyCheckpointResult ops (et_activeEpochConfig ops (world c')) r"
  let ?call = "Call ''commitState.applyCheckpointResult'' [CheckpointResult.SeqNo r]"
  let ?E = "applyEvent fuel ops (StateEvent_AddResults results) sm"
  let ?A = "afterEvent fuel ops (processResults ops results) c"
  let ?P = "processCheckpoints ops (r # post) c'"
  assume a: "\<not> CheckpointResult.SeqNo r < cs_lowWatermark ops (world c')
           \<and> CheckpointResult.SeqNo r
               = cs_lowWatermark ops (world c') + scast (cs_CheckpointInterval ops (world c'))"
  from checkpoint_applied[OF this] obtain tb rb where
    b: "processCheckpointResult ops r c' = (?call # tb, rb)"
    and bp: "\<forall>e. ?m c' = Panic e \<longrightarrow> tb = [] \<and> rb = Some (Panic e)"
    and bn: "\<forall>acts' c''. ?m c' = Return (acts', c'')
                \<and> \<not> cs_stopAtSeqNo ops (world c') < cs_stopAtSeqNo ops (world c'')
              \<longrightarrow> tb = [] \<and> rb = Some (Return (acts', c''))"
    and ba: "\<forall>acts' c''. ?m c' = Return (acts', c'')
                \<and> cs_stopAtSeqNo ops (world c') < cs_stopAtSeqNo ops (world c'')
              \<longrightarrow> (\<exists>tr'. tb = Call ''clientTracker.allocate'' [CheckpointResult.SeqNo r] # tr')"
    by (elim exE conjE)
  obtain x where fp: "fst ?P = ?call # tb @ x"
    using b by (simp add: fst_bindP)
  have pp: "\<forall>e. rb = Some (Panic e) \<longrightarrow> ?P = (?call # tb, Some (Panic e))"
    using b by (simp add: bindP_def)
  obtain resP where all: "processCheckpoints ops (Checkpoints results) c = (tr @ fst ?P, resP)"
    and allp: "\<forall>e. snd ?P = Some (Panic e) \<longrightarrow> resP = Some (Panic e)"
    unfolding split processCheckpoints_after[OF reach] by simp
  from processResults_through[OF all, of fuel] obtain rest where
    fa: "fst ?A = (tr @ fst ?P) @ rest"
    and pa: "\<forall>e. resP = Some (Panic e) \<longrightarrow> ?A = (tr @ fst ?P, Some (Panic e))"
    by blast
  have fe: "fst ?E = tr @ ?call # (tb @ x @ rest)"
    unfolding applyEvent_AddResults[OF init comp] using fa fp by simp
  have ep: "\<forall>e. ?m c' = Panic e \<longrightarrow> ?E = (tr @ [?call], Some (Panic e))"
  proof (intro allI impI)
    fix e assume "?m c' = Panic e"
    with bp have t: "tb = []" and "rb = Some (Panic e)" by simp_all
    with pp have p: "?P = ([?call], Some (Panic e))" by simp
    then have "resP = Some (Panic e)" using allp by simp
    with pa have "?A = (tr @ fst ?P, Some (Panic e))" by simp
    then show "?E = (tr @ [?call], Some (Panic e))"
      unfolding applyEvent_AddResults[OF init comp] using p by simp
  qed
  show "\<exists>tr' res. ?E = (tr @ ?call # tr', res)
          \<and> (\<forall>e. ?m c' = Panic e \<longrightarrow> tr' = [] \<and> res = Some (Panic e))
          \<and> (\<forall>acts' c''. ?m c' = Return (acts', c'')
                  \<and> cs_stopAtSeqNo ops (world c') < cs_stopAtSeqNo ops (world c'')
                \<longrightarrow> (\<exists>tr''. tr' = Call ''clientTracker.allocate''
                                       [CheckpointResult.SeqNo r] # tr''))
          \<and> (\<forall>acts' c''. ?m c' = Return (acts', c'')
                  \<and> \<not> cs_stopAtSeqNo ops (world c') < cs_stopAtSeqNo ops (world c'')
                \<longrightarrow> processCheckpointResult ops r c' = ([?call], Some (Return (acts', c''))))"
  proof (rule exI[of _ "tb @ x @ rest"], rule exI[of _ "snd ?E"], intro conjI allI impI)
    show "?E = (tr @ ?call # tb @ x @ rest, snd ?E)"
      using fe by (metis prod.collapse)
  next
    fix e assume m: "?m c' = Panic e"
    with ep have e: "?E = (tr @ [?call], Some (Panic e))" by simp
    with fe show "tb @ x @ rest = []" by simp
    from e show "snd ?E = Some (Panic e)" by simp
  next
    fix acts' c''
    assume "?m c' = Return (acts', c'')
              \<and> cs_stopAtSeqNo ops (world c') < cs_stopAtSeqNo ops (world c'')"
    with ba obtain t where "tb = Call ''clientTracker.allocate'' [CheckpointResult.SeqNo r] # t"
      by blast
    then show "\<exists>tr''. tb @ x @ rest
                 = Call ''clientTracker.allocate'' [CheckpointResult.SeqNo r] # tr''"
      by simp
  next
    fix acts' c''
    assume "?m c' = Return (acts', c'')
              \<and> \<not> cs_stopAtSeqNo ops (world c') < cs_stopAtSeqNo ops (world c'')"
    with bn have "tb = []" "rb = Some (Return (acts', c''))" by blast+
    with b show "processCheckpointResult ops r c' = ([?call], Some (Return (acts', c'')))"
      by simp
  qed
qed

section \<open>Construction of the tracker\<close>

lemma unat_add_of_nat:
  fixes a :: u64
  assumes "unat a + t < 2 ^ 64"
  shows "unat (a + of_nat t) = unat a + t"
proof -
  have t: "unat (of_nat t :: u64) = t"
    using assms by (simp add: unat_of_nat)
  have "unat a + unat (of_nat t :: u64) < 2 ^ LENGTH(64)"
    using assms t by simp
  then have "unat (a + of_nat t) = unat a + unat (of_nat t :: u64)"
    by (simp only: unat_add_lem)
  with t show ?thesis by simp
qed

lemma stride_bucket:
  fixes LW top :: u64
  assumes per: "\<And>r :: u64. LW \<le> r \<Longrightarrow> unat r + n \<le> unat top \<Longrightarrow> B (r + of_nat n) = B r"
    and "unat LW + j + i * n \<le> unat top"
  shows "B (LW + of_nat (j + i * n)) = B (LW + of_nat j)"
  using assms(2)
proof (induction i)
  case 0
  show ?case by simp
next
  case (Suc i)
  have top: "unat top < 2 ^ 64" using unsigned_less[of top] by simp
  have b: "unat LW + (j + i * n) < 2 ^ 64" using Suc.prems top by simp
  have u: "unat (LW + of_nat (j + i * n)) = unat LW + (j + i * n)"
    using b by (rule unat_add_of_nat)
  have l: "LW \<le> LW + of_nat (j + i * n)" using u by (simp add: word_le_nat_alt)
  have "unat (LW + of_nat (j + i * n)) + n \<le> unat top"
    using Suc.prems u by simp
  with l have step: "B (LW + of_nat (j + i * n) + of_nat n) = B (LW + of_nat (j + i * n))"
    by (rule per)
  have e: "LW + of_nat (j + Suc i * n) = LW + of_nat (j + i * n) + of_nat n"
    by (simp add: algebra_simps)
  have "unat LW + j + i * n \<le> unat top" using Suc.prems by simp
  from Suc.IH[OF this] show ?case unfolding e step .
qed

lemma first_uncommitted_core:
  fixes LW r top :: u64
  assumes n: "0 < n"
    and per: "\<And>r :: u64. LW \<le> r \<Longrightarrow> unat r + n \<le> unat top \<Longrightarrow> B (r + of_nat n) = B r"
    and top: "r \<le> top"
    and inj: "\<And>j j'. j < n \<Longrightarrow> j' < n \<Longrightarrow> B (LW + of_nat j) = B (LW + of_nat j') \<Longrightarrow> j = j'"
    and j0: "j0 < n" "B (LW + of_nat j0) = b"
    and P: "LW \<le> r" "B r = b" "\<not> C r"
    and least: "\<And>r'. LW \<le> r' \<Longrightarrow> B r' = b \<Longrightarrow> \<not> C r' \<Longrightarrow> r \<le> r'"
  shows "\<exists>q. r = LW + of_nat j0 + of_nat q * of_nat n
            \<and> (\<forall>i<q. C (LW + of_nat j0 + of_nat i * of_nat n))"
proof -
  define d where "d = unat r - unat LW"
  define q where "q = d div n"
  define j' where "j' = d mod n"
  have le: "unat LW \<le> unat r" using P(1) by (simp add: word_le_nat_alt)
  have rt: "unat r \<le> unat top" using top by (simp add: word_le_nat_alt)
  have rlt: "unat r < 2 ^ 64" using unsigned_less[of r] by simp
  have d: "unat r = unat LW + d" using le by (simp add: d_def)
  have dq: "d = j' + q * n" by (simp add: q_def j'_def)
  have j'n: "j' < n" using n by (simp add: j'_def)
  have bound: "unat LW + j' + q * n < 2 ^ 64" using d dq rlt by simp
  have bound': "unat LW + j' + q * n \<le> unat top" using d dq rt by simp
  have r_eq: "r = LW + of_nat (j' + q * n)"
  proof -
    have "unat (LW + of_nat (j' + q * n)) = unat LW + (j' + q * n)"
      using bound by (intro unat_add_of_nat) simp
    then have "unat (LW + of_nat (j' + q * n)) = unat r" using d dq by simp
    then show ?thesis by (simp add: word_unat_eq_iff)
  qed
  have "B (LW + of_nat (j' + q * n)) = B (LW + of_nat j')"
    using per bound' by (rule stride_bucket)
  then have "B (LW + of_nat j') = b" using r_eq P(2) by simp
  then have jj: "j' = j0" using inj[OF j'n j0(1)] j0(2) by simp
  have r_eq': "r = LW + of_nat j0 + of_nat q * of_nat n"
    using r_eq jj by (simp add: algebra_simps)
  have "C (LW + of_nat j0 + of_nat i * of_nat n)" if i: "i < q" for i
  proof (rule ccontr)
    assume nc: "\<not> C (LW + of_nat j0 + of_nat i * of_nat n)"
    let ?y = "LW + of_nat (j0 + i * n)"
    have y: "LW + of_nat j0 + of_nat i * of_nat n = ?y" by (simp add: algebra_simps)
    have "i * n < q * n" using i n by simp
    then have lt: "j0 + i * n < j0 + q * n" by simp
    have b: "unat LW + (j0 + i * n) < 2 ^ 64" using bound lt jj by linarith
    have b': "unat LW + j0 + i * n \<le> unat top" using bound' lt jj by linarith
    have uy: "unat ?y = unat LW + (j0 + i * n)" using b by (rule unat_add_of_nat)
    have "B ?y = B (LW + of_nat j0)"
      using per b' by (rule stride_bucket)
    then have By: "B ?y = b" using j0(2) by simp
    have "LW \<le> ?y" using uy by (simp add: word_le_nat_alt)
    from least[OF this By] nc y have "r \<le> ?y" by simp
    then have "unat r \<le> unat ?y" by (simp add: word_le_nat_alt)
    with uy d dq jj lt show False by simp
  qed
  with r_eq' show ?thesis by blast
qed

lemma scast_positive:
  fixes x :: "32 word"
  assumes "0 < sint x"
  shows "(scast x :: u64) = of_nat (nat (sint x))" and "unat (scast x :: u64) = nat (sint x)"
proof -
  have "0 \<le> sint x" using assms by simp
  then have "(of_nat (nat (sint x)) :: u64) = of_int (sint x)" by (rule of_nat_nat)
  then show e: "(scast x :: u64) = of_nat (nat (sint x))"
    by (simp only: scast_eq)
  have "sint x < 2 ^ 31" using sint_lt[of x] by simp
  then have "nat (sint x) < 2 ^ 64" using assms by simp
  then show "unat (scast x :: u64) = nat (sint x)"
    unfolding e by (simp add: unat_of_nat)
qed

lemma firstUncommitted_hit:
  assumes "j < n" and "c2b (Id_client cl) (LowWatermark cl + of_nat j) config = i"
    and "n = nat (sint (NumberOfBuckets config))"
  shows "\<exists>j0<n. firstUncommitted c2b config i cl = LowWatermark cl + of_nat j0
           \<and> c2b (Id_client cl) (LowWatermark cl + of_nat j0) config = i"
proof -
  let ?P = "\<lambda>j. c2b (Id_client cl) (LowWatermark cl + of_nat j) config = i"
  have "find ?P [0..<n] \<noteq> None"
    using assms(1,2) by (auto simp: find_None_iff)
  then obtain j0 where f: "find ?P [0..<n] = Some j0" by auto
  then have "j0 < n \<and> ?P j0"
    by (auto simp: find_Some_iff)
  with f show ?thesis
    unfolding firstUncommitted_def assms(3)[symmetric] by auto
qed

lemma newClient_first_uncommitted:
  assumes pos: "0 < sint (NumberOfBuckets config)"
    and cover: "bucketsCoverWindow c2b config cl"
    and b: "b < scast (NumberOfBuckets config)"
    and ex: "\<exists>r. uncommittedInBucket isC c2b config cl b r
                 \<and> bucketsRepeatUpTo c2b config cl r"
  shows "\<exists>co. skipPreviouslyCommitted isC
              \<lparr>nextReqNo = firstUncommitted c2b config b cl,
               numBuckets = scast (NumberOfBuckets config), client = cl\<rparr> = Some co
            \<and> firstUncommittedInBucket isC c2b config cl b (nextReqNo co)"
proof -
  define n where "n = nat (sint (NumberOfBuckets config))"
  let ?LW = "LowWatermark cl"
  let ?B = "\<lambda>r. c2b (Id_client cl) r config"
  let ?C = "\<lambda>r. isC r cl"
  let ?P = "uncommittedInBucket isC c2b config cl b"
  have n0: "0 < n" using pos by (simp add: n_def)
  have N: "(scast (NumberOfBuckets config) :: u64) = of_nat n"
    using scast_positive(1)[OF pos] by (simp add: n_def)
  from ex obtain top where Ptop: "?P top" and rep: "bucketsRepeatUpTo c2b config cl top"
    by blast
  have per: "\<And>r :: u64. ?LW \<le> r \<Longrightarrow> unat r + n \<le> unat top \<Longrightarrow> ?B (r + of_nat n) = ?B r"
    using rep unfolding bucketsRepeatUpTo_def Let_def n_def[symmetric] by blast
  have inj: "\<And>j j'. j < n \<Longrightarrow> j' < n \<Longrightarrow> ?B (?LW + of_nat j) = ?B (?LW + of_nat j') \<Longrightarrow> j = j'"
    and hit: "\<exists>j<n. ?B (?LW + of_nat j) = b"
    using cover b unfolding bucketsCoverWindow_def Let_def n_def[symmetric] N by blast+
  from hit obtain j where j: "j < n" "?B (?LW + of_nat j) = b" by blast
  from firstUncommitted_hit[of j n c2b cl config b, OF j n_def] obtain j0 where j0: "j0 < n"
    "firstUncommitted c2b config b cl = ?LW + of_nat j0" "?B (?LW + of_nat j0) = b"
    by blast
  define r where "r = (LEAST r. ?P r)"
  have Pr: "?P r" unfolding r_def using Ptop by (rule LeastI)
  have least: "\<And>r'. ?P r' \<Longrightarrow> r \<le> r'" unfolding r_def by (rule Least_le)
  have rtop: "r \<le> top" using Ptop by (rule least)
  have "\<exists>q. r = ?LW + of_nat j0 + of_nat q * of_nat n
            \<and> (\<forall>i<q. ?C (?LW + of_nat j0 + of_nat i * of_nat n))"
  proof (rule first_uncommitted_core[where B = ?B and C = ?C and b = b, OF n0 per rtop inj j0(1) j0(3)])
    show "?LW \<le> r" "?B r = b" "\<not> ?C r"
      using Pr by (simp_all add: uncommittedInBucket_def)
    show "\<And>r'. ?LW \<le> r' \<Longrightarrow> ?B r' = b \<Longrightarrow> \<not> ?C r' \<Longrightarrow> r \<le> r'"
      using least by (simp add: uncommittedInBucket_def)
  qed
  then obtain q where q: "r = ?LW + of_nat j0 + of_nat q * of_nat n"
    "\<forall>i<q. ?C (?LW + of_nat j0 + of_nat i * of_nat n)" by blast
  let ?co = "\<lparr>nextReqNo = firstUncommitted c2b config b cl,
               numBuckets = scast (NumberOfBuckets config), client = cl\<rparr>"
  have a: "\<forall>i<q. isC (nextReqNo ?co + of_nat i * numBuckets ?co) (client ?co)"
    using q(2) by (simp add: j0(2) N)
  have c: "\<not> isC (nextReqNo ?co + of_nat q * numBuckets ?co) (client ?co)"
    using Pr q(1) by (simp add: j0(2) N uncommittedInBucket_def)
  have "skipPreviouslyCommitted isC ?co
          = Some (?co\<lparr>nextReqNo := nextReqNo ?co + of_nat q * numBuckets ?co\<rparr>)"
    using skip_steps[of q isC ?co] a c by blast
  moreover have "nextReqNo ?co + of_nat q * numBuckets ?co = r"
    using q(1) by (simp add: j0(2) N)
  moreover have "firstUncommittedInBucket isC c2b config cl b r"
    unfolding firstUncommittedInBucket_def using Pr least by blast
  ultimately show ?thesis by simp
qed

lemma newClients_result:
  assumes "\<forall>cl \<in> set cls. \<exists>co. skipPreviouslyCommitted isC
              \<lparr>nextReqNo = firstUncommitted c2b config i cl,
               numBuckets = scast (NumberOfBuckets config), client = cl\<rparr> = Some co
            \<and> Q cl (nextReqNo co)"
    and "distinct (map Id_client cls)"
  shows "\<exists>m'. newClients isC c2b config i cls m = Some m'
           \<and> (\<forall>cl \<in> set cls. \<exists>co. m' (Id_client cl) = Some co \<and> Q cl (nextReqNo co))
           \<and> (\<forall>k. k \<notin> Id_client ` set cls \<longrightarrow> m' k = m k)"
  using assms
proof (induction cls arbitrary: m)
  case Nil
  show ?case by simp
next
  case (Cons cl cls)
  from Cons.prems(1) obtain co where co: "skipPreviouslyCommitted isC
              \<lparr>nextReqNo = firstUncommitted c2b config i cl,
               numBuckets = scast (NumberOfBuckets config), client = cl\<rparr> = Some co"
    "Q cl (nextReqNo co)" by auto
  have rest: "\<forall>cl \<in> set cls. \<exists>co. skipPreviouslyCommitted isC
              \<lparr>nextReqNo = firstUncommitted c2b config i cl,
               numBuckets = scast (NumberOfBuckets config), client = cl\<rparr> = Some co
            \<and> Q cl (nextReqNo co)"
    using Cons.prems(1) by simp
  have d: "distinct (map Id_client cls)" and notin: "Id_client cl \<notin> Id_client ` set cls"
    using Cons.prems(2) by simp_all
  from Cons.IH[OF rest d, of "m(Id_client cl \<mapsto> co)"] obtain m' where
    m': "newClients isC c2b config i cls (m(Id_client cl \<mapsto> co)) = Some m'"
    "\<forall>cl \<in> set cls. \<exists>co. m' (Id_client cl) = Some co \<and> Q cl (nextReqNo co)"
    "\<forall>k. k \<notin> Id_client ` set cls \<longrightarrow> m' k = (m(Id_client cl \<mapsto> co)) k"
    by blast
  have "m' (Id_client cl) = Some co" using m'(3) notin by simp
  with m' co show ?case by auto
qed

lemma newBuckets_result:
  assumes "\<forall>i \<in> set bs. \<exists>cs. newClients isC c2b (Config ns) i (Clients ns) Map.empty = Some cs
                            \<and> R i cs"
    and "distinct bs"
  shows "\<exists>m'. newBuckets isC c2b ns bs m = Some m'
           \<and> (\<forall>i \<in> set bs. \<exists>cs. m' i = Some \<lparr>clients = cs\<rparr> \<and> R i cs)
           \<and> (\<forall>k. k \<notin> set bs \<longrightarrow> m' k = m k)"
  using assms
proof (induction bs arbitrary: m)
  case Nil
  show ?case by simp
next
  case (Cons i bs)
  from Cons.prems(1) obtain cs where cs:
    "newClients isC c2b (Config ns) i (Clients ns) Map.empty = Some cs" "R i cs" by auto
  have rest: "\<forall>i \<in> set bs. \<exists>cs. newClients isC c2b (Config ns) i (Clients ns) Map.empty = Some cs
                            \<and> R i cs"
    using Cons.prems(1) by simp
  have d: "distinct bs" and notin: "i \<notin> set bs" using Cons.prems(2) by simp_all
  from Cons.IH[OF rest d, of "m(i \<mapsto> \<lparr>clients = cs\<rparr>)"] obtain m' where
    m': "newBuckets isC c2b ns bs (m(i \<mapsto> \<lparr>clients = cs\<rparr>)) = Some m'"
    "\<forall>i \<in> set bs. \<exists>cs. m' i = Some \<lparr>clients = cs\<rparr> \<and> R i cs"
    "\<forall>k. k \<notin> set bs \<longrightarrow> m' k = (m(i \<mapsto> \<lparr>clients = cs\<rparr>)) k"
    by blast
  have "m' i = Some \<lparr>clients = cs\<rparr>" using m'(3) notin by simp
  with m' cs show ?case by auto
qed

lemma unat_u64_less: "unat (w :: u64) < 2 ^ 64"
  using unsigned_less[of w] by simp

lemma unat_of_nat_below:
  fixes N :: u64
  assumes "k < unat N"
  shows "unat (of_nat k :: u64) = k"
proof -
  have "k < 2 ^ 64" using assms unat_u64_less[of N] by (rule less_trans)
  then show ?thesis by (simp add: unat_of_nat)
qed

lemma bucket_ids:
  fixes N b :: u64
  shows "distinct (map of_nat [0..<unat N] :: u64 list)"
    and "b < N \<Longrightarrow> b \<in> set (map of_nat [0..<unat N])"
proof -
  have "inj_on (of_nat :: nat \<Rightarrow> u64) (set [0..<unat N])"
  proof (rule inj_onI)
    fix x y assume "x \<in> set [0..<unat N]" "y \<in> set [0..<unat N]"
      and e: "(of_nat x :: u64) = of_nat y"
    then have x: "x < unat N" and y: "y < unat N" by simp_all
    have ux: "unat (of_nat x :: u64) = x" using x by (rule unat_of_nat_below)
    have uy: "unat (of_nat y :: u64) = y" using y by (rule unat_of_nat_below)
    from e have "unat (of_nat x :: u64) = unat (of_nat y :: u64)" by (rule arg_cong)
    then show "x = y" unfolding ux uy .
  qed
  then show "distinct (map of_nat [0..<unat N] :: u64 list)"
    by (simp add: distinct_map)
  assume "b < N"
  then have "unat b < unat N" by (simp add: word_less_nat_alt)
  then have "unat b \<in> set [0..<unat N]" by simp
  then have "of_nat (unat b) \<in> (of_nat :: nat \<Rightarrow> u64) ` set [0..<unat N]" by (rule imageI)
  then show "b \<in> set (map of_nat [0..<unat N])" by simp
qed

lemma advanceRequestsLoop_nothing_outstanding:
  assumes "outstandingRequests ao = Map.empty"
  shows "\<exists>ao'. advanceRequestsLoop sat xs (actions, ao, h, calls) = Return (actions, ao', h, calls)
           \<and> buckets ao' = buckets ao \<and> outstandingRequests ao' = Map.empty"
  using assms
proof (induction xs arbitrary: ao)
  case Nil
  then show ?case by simp
next
  case (Cons ack xs)
  let ?ao1 = "ao\<lparr>availableIterator := tl (availableIterator ao),
                 correctRequests := (correctRequests ao)(Digest ack \<mapsto> ack)\<rparr>"
  have b: "advanceRequestsBody sat ack (actions, ao, h, calls) = Return (actions, ?ao1, h, calls)"
    using Cons.prems by (simp add: advanceRequestsBody_def Let_def)
  have "outstandingRequests ?ao1 = Map.empty" using Cons.prems by simp
  from Cons.IH[OF this] obtain ao' where
    "advanceRequestsLoop sat xs (actions, ?ao1, h, calls) = Return (actions, ao', h, calls)"
    "buckets ao' = buckets ?ao1" "outstandingRequests ao' = Map.empty" by blast
  then show ?case using b by (simp add: bindR_def)
qed

text \<open>
  Claim C7. Let the number of buckets be positive and the client ids distinct, let the
  request numbers of the window of every client cover the buckets, and let every
  client have, in every bucket, some uncommitted request number at or above its low
  watermark up to which the buckets repeat. Then \<open>newOutstandingReqs\<close> returns, and for
  every client and every bucket the tracker holds, as \<open>nextReqNo\<close>, the smallest request
  number at or above the client's low watermark that maps to the bucket and is not
  committed.
\<close>

theorem newOutstandingReqs_nextReqNo:
  fixes satisfyOutstanding :: "'s \<Rightarrow> RequestAck \<Rightarrow> 'h \<Rightarrow> ('a list \<times> 'h) result"
    and isCommitted :: "u64 \<Rightarrow> 'm NetworkState_Client_scheme \<Rightarrow> bool"
  assumes pos: "0 < sint (NumberOfBuckets (Config networkState))"
    and ids: "distinct (map Id_client (Clients networkState))"
    and cover: "\<forall>cl \<in> set (Clients networkState).
                  bucketsCoverWindow clientReqToBucket (Config networkState) cl"
    and ex: "\<forall>cl \<in> set (Clients networkState). \<forall>b. b < scast (NumberOfBuckets (Config networkState))
               \<longrightarrow> (\<exists>r. uncommittedInBucket isCommitted clientReqToBucket (Config networkState) cl b r
                        \<and> bucketsRepeatUpTo clientReqToBucket (Config networkState) cl r)"
  shows "\<exists>ao. newOutstandingReqs satisfyOutstanding isCommitted clientReqToBucket availableList
                 networkState h = Some (Return (ao, h))
          \<and> (\<forall>cl \<in> set (Clients networkState). \<forall>b. b < scast (NumberOfBuckets (Config networkState))
               \<longrightarrow> (\<exists>bo co. buckets ao b = Some bo \<and> clients bo (Id_client cl) = Some co
                      \<and> firstUncommittedInBucket isCommitted clientReqToBucket
                            (Config networkState) cl b (nextReqNo co)))"
proof -
  let ?cfg = "Config networkState"
  let ?N = "scast (NumberOfBuckets ?cfg) :: u64"
  let ?ids = "map of_nat [0..<unat ?N] :: u64 list"
  let ?R = "\<lambda>i cs. \<forall>cl \<in> set (Clients networkState). \<exists>co. cs (Id_client cl) = Some co
              \<and> firstUncommittedInBucket isCommitted clientReqToBucket ?cfg cl i (nextReqNo co)"
  have each: "\<forall>i \<in> set ?ids. \<exists>cs. newClients isCommitted clientReqToBucket ?cfg i
                  (Clients networkState) Map.empty = Some cs \<and> ?R i cs"
  proof
    fix i assume "i \<in> set ?ids"
    then obtain k where k: "k < unat ?N" "i = of_nat k" by auto
    have "unat i = k" unfolding k(2) using k(1) by (rule unat_of_nat_below)
    then have i: "i < ?N" using k(1) by (simp add: word_less_nat_alt)
    have "\<forall>cl \<in> set (Clients networkState). \<exists>co. skipPreviouslyCommitted isCommitted
              \<lparr>nextReqNo = firstUncommitted clientReqToBucket ?cfg i cl,
               numBuckets = scast (NumberOfBuckets ?cfg), client = cl\<rparr> = Some co
            \<and> firstUncommittedInBucket isCommitted clientReqToBucket ?cfg cl i (nextReqNo co)"
      using newClient_first_uncommitted[OF pos] cover ex i by blast
    from newClients_result[where Q = "\<lambda>cl. firstUncommittedInBucket isCommitted clientReqToBucket ?cfg cl i",
        OF this ids, of Map.empty]
    show "\<exists>cs. newClients isCommitted clientReqToBucket ?cfg i
                  (Clients networkState) Map.empty = Some cs \<and> ?R i cs"
      by blast
  qed
  from newBuckets_result[where R = ?R, OF each bucket_ids(1), of Map.empty] obtain bs where
    bs: "newBuckets isCommitted clientReqToBucket networkState ?ids Map.empty = Some bs"
    "\<forall>i \<in> set ?ids. \<exists>cs. bs i = Some \<lparr>clients = cs\<rparr> \<and> ?R i cs"
    by blast
  let ?ao = "\<lparr>buckets = bs, availableIterator = availableList,
              correctRequests = Map.empty, outstandingRequests = Map.empty\<rparr>
             :: ('m, 's) allOutstandingReqs"
  have "outstandingRequests ?ao = Map.empty" by simp
  from advanceRequestsLoop_nothing_outstanding[OF this, of satisfyOutstanding availableList "[]" h "[]"]
  obtain ao' where ao': "advanceRequests satisfyOutstanding ?ao h = Return ([], ao', h, [])"
    "buckets ao' = bs"
    by (auto simp: advanceRequests_def)
  have r: "newOutstandingReqs satisfyOutstanding isCommitted clientReqToBucket availableList
             networkState h = Some (Return (ao', h))"
    using bs(1) ao'(1) by (simp add: newOutstandingReqs_def bindR_def)
  have "\<forall>cl \<in> set (Clients networkState). \<forall>b. b < ?N
               \<longrightarrow> (\<exists>bo co. buckets ao' b = Some bo \<and> clients bo (Id_client cl) = Some co
                      \<and> firstUncommittedInBucket isCommitted clientReqToBucket ?cfg cl b (nextReqNo co))"
  proof (intro ballI allI impI)
    fix cl b assume cl: "cl \<in> set (Clients networkState)" and b: "b < ?N"
    from bucket_ids(2)[OF b] bs(2) obtain cs where cs: "bs b = Some \<lparr>clients = cs\<rparr>" "?R b cs"
      by blast
    from cs(2) cl obtain co where "cs (Id_client cl) = Some co"
      "firstUncommittedInBucket isCommitted clientReqToBucket ?cfg cl b (nextReqNo co)" by blast
    with cs(1) ao'(2) show "\<exists>bo co. buckets ao' b = Some bo \<and> clients bo (Id_client cl) = Some co
                      \<and> firstUncommittedInBucket isCommitted clientReqToBucket ?cfg cl b (nextReqNo co)"
      by simp
  qed
  with r show ?thesis by blast
qed

lemma ex_bucket_value:
  "exBucketOf 7 r (Config exNetworkState) = (7 + r) mod 3"
  by (simp add: exBucketOf_def exNetworkState_def)

lemma ex_buckets_number:
  "nat (sint (NumberOfBuckets (Config exNetworkState))) = 3"
  "(scast (NumberOfBuckets (Config exNetworkState)) :: u64) = 3"
  by (simp_all add: exNetworkState_def)

lemma ex_between:
  fixes r :: u64
  assumes "lo \<le> unat r" and "unat r \<le> hi" and "hi < 2 ^ 64"
  shows "\<exists>k. lo \<le> k \<and> k \<le> hi \<and> r = of_nat k"
proof -
  have "r = of_nat (unat r)" by simp
  with assms show ?thesis by blast
qed

lemma ex_below_three:
  fixes b :: u64
  assumes "b < 3"
  shows "b = 0 \<or> b = 1 \<or> b = 2"
proof -
  have "unat b < 3" using assms by (simp add: word_less_nat_alt)
  then have "unat b = 0 \<or> unat b = 1 \<or> unat b = 2" by arith
  then show ?thesis by (auto simp: word_unat_eq_iff)
qed

lemma ex_window:
  "exBucketOf 7 (4 + of_nat 0) (Config exNetworkState) = 2"
  "exBucketOf 7 (4 + of_nat 1) (Config exNetworkState) = 0"
  "exBucketOf 7 (4 + of_nat 2) (Config exNetworkState) = 1"
  by (simp_all add: ex_bucket_value)

lemma ex_cover:
  "bucketsCoverWindow exBucketOf (Config exNetworkState) \<lparr>Id_client = 7, LowWatermark = 4\<rparr>"
  unfolding bucketsCoverWindow_def Let_def ex_buckets_number
proof (intro conjI allI impI)
  fix j j' :: nat
  assume a: "j < 3 \<and> j' < 3
           \<and> exBucketOf (Id_client \<lparr>Id_client = 7, LowWatermark = 4\<rparr>)
                (LowWatermark \<lparr>Id_client = 7, LowWatermark = 4\<rparr> + of_nat j) (Config exNetworkState)
             = exBucketOf (Id_client \<lparr>Id_client = 7, LowWatermark = 4\<rparr>)
                (LowWatermark \<lparr>Id_client = 7, LowWatermark = 4\<rparr> + of_nat j') (Config exNetworkState)"
  then have j: "j = 0 \<or> j = 1 \<or> j = 2" and j': "j' = 0 \<or> j' = 1 \<or> j' = 2" by auto
  from a have e: "exBucketOf 7 (4 + of_nat j) (Config exNetworkState)
                    = exBucketOf 7 (4 + of_nat j') (Config exNetworkState)" by simp
  from j j' e show "j = j'"
    using ex_window by (elim disjE) simp_all
next
  fix b :: u64
  assume "b < of_nat 3"
  then have "b < 3" by simp
  then have b: "b = 0 \<or> b = 1 \<or> b = 2" by (rule ex_below_three)
  have w0: "(2 :: nat) < 3 \<and> exBucketOf 7 (4 + of_nat 2) (Config exNetworkState) = 1"
    and w1: "(1 :: nat) < 3 \<and> exBucketOf 7 (4 + of_nat 1) (Config exNetworkState) = 0"
    and w2: "(0 :: nat) < 3 \<and> exBucketOf 7 (4 + of_nat 0) (Config exNetworkState) = 2"
    using ex_window by simp_all
  from b show "\<exists>j<3. exBucketOf (Id_client \<lparr>Id_client = 7, LowWatermark = 4\<rparr>)
            (LowWatermark \<lparr>Id_client = 7, LowWatermark = 4\<rparr> + of_nat j) (Config exNetworkState) = b"
  proof (elim disjE)
    assume "b = 0"
    with w1 show ?thesis by (intro exI[of _ 1]) simp
  next
    assume "b = 1"
    with w0 show ?thesis by (intro exI[of _ 2]) simp
  next
    assume "b = 2"
    with w2 show ?thesis by (intro exI[of _ 0]) simp
  qed
qed

lemma ex_repeat:
  fixes top :: u64
  assumes "top \<le> 8"
  shows "bucketsRepeatUpTo exBucketOf (Config exNetworkState)
           \<lparr>Id_client = 7, LowWatermark = 4\<rparr> top"
  unfolding bucketsRepeatUpTo_def Let_def ex_buckets_number
proof (intro allI impI)
  fix r :: u64
  assume a: "LowWatermark \<lparr>Id_client = 7, LowWatermark = 4\<rparr> \<le> r \<and> unat r + 3 \<le> unat top"
  have "unat top \<le> 8" using assms by (simp add: word_le_nat_alt)
  with a have "4 \<le> unat r" "unat r \<le> 5" by (simp_all add: word_le_nat_alt)
  then have "unat r = 4 \<or> unat r = 5" by arith
  then have "r = 4 \<or> r = 5" by (auto simp: word_unat_eq_iff)
  then show "exBucketOf (Id_client \<lparr>Id_client = 7, LowWatermark = 4\<rparr>) (r + of_nat 3)
               (Config exNetworkState)
             = exBucketOf (Id_client \<lparr>Id_client = 7, LowWatermark = 4\<rparr>) r (Config exNetworkState)"
    by (elim disjE) (simp_all add: ex_bucket_value)
qed

lemma ex_uncommitted:
  "uncommittedInBucket exCommittedBelow exBucketOf (Config exNetworkState)
     \<lparr>Id_client = 7, LowWatermark = 4\<rparr> 0 8"
  "uncommittedInBucket exCommittedBelow exBucketOf (Config exNetworkState)
     \<lparr>Id_client = 7, LowWatermark = 4\<rparr> 1 6"
  "uncommittedInBucket exCommittedBelow exBucketOf (Config exNetworkState)
     \<lparr>Id_client = 7, LowWatermark = 4\<rparr> 2 7"
  by (simp_all add: uncommittedInBucket_def ex_bucket_value exCommittedBelow_def)

lemma ex_first_values:
  fixes r :: u64
  shows "firstUncommittedInBucket exCommittedBelow exBucketOf (Config exNetworkState)
           \<lparr>Id_client = 7, LowWatermark = 4\<rparr> 0 r \<Longrightarrow> r = 8"
    and "firstUncommittedInBucket exCommittedBelow exBucketOf (Config exNetworkState)
           \<lparr>Id_client = 7, LowWatermark = 4\<rparr> 1 r \<Longrightarrow> r = 6"
    and "firstUncommittedInBucket exCommittedBelow exBucketOf (Config exNetworkState)
           \<lparr>Id_client = 7, LowWatermark = 4\<rparr> 2 r \<Longrightarrow> r = 7"
proof -
  have range: "r = 6 \<or> r = 7 \<or> r = 8" if "r \<le> 8" and "\<not> r < 6"
  proof -
    from that have "6 \<le> unat r" "unat r \<le> 8" by (simp_all add: word_le_nat_alt word_less_nat_alt)
    then have "unat r = 6 \<or> unat r = 7 \<or> unat r = 8" by arith
    then show ?thesis by (auto simp: word_unat_eq_iff)
  qed
  have b: "exBucketOf 7 6 (Config exNetworkState) = 1" "exBucketOf 7 7 (Config exNetworkState) = 2"
    "exBucketOf 7 8 (Config exNetworkState) = 0"
    by (simp_all add: ex_bucket_value)
  {
    assume a: "firstUncommittedInBucket exCommittedBelow exBucketOf (Config exNetworkState)
                 \<lparr>Id_client = 7, LowWatermark = 4\<rparr> 0 r"
    then have le: "r \<le> 8" using ex_uncommitted(1) unfolding firstUncommittedInBucket_def by blast
    from a have ge: "\<not> r < 6" and bk: "exBucketOf 7 r (Config exNetworkState) = 0"
      unfolding firstUncommittedInBucket_def uncommittedInBucket_def exCommittedBelow_def
      by simp_all
    from range[OF le ge] bk b show "r = 8" by auto
  }
  {
    assume a: "firstUncommittedInBucket exCommittedBelow exBucketOf (Config exNetworkState)
                 \<lparr>Id_client = 7, LowWatermark = 4\<rparr> 1 r"
    then have "r \<le> 6" using ex_uncommitted(2) unfolding firstUncommittedInBucket_def by blast
    then have le: "r \<le> 8" by (simp add: word_le_nat_alt)
    from a have ge: "\<not> r < 6" and bk: "exBucketOf 7 r (Config exNetworkState) = 1"
      unfolding firstUncommittedInBucket_def uncommittedInBucket_def exCommittedBelow_def
      by simp_all
    from range[OF le ge] bk b show "r = 6" by auto
  }
  {
    assume a: "firstUncommittedInBucket exCommittedBelow exBucketOf (Config exNetworkState)
                 \<lparr>Id_client = 7, LowWatermark = 4\<rparr> 2 r"
    then have "r \<le> 7" using ex_uncommitted(3) unfolding firstUncommittedInBucket_def by blast
    then have le: "r \<le> 8" by (simp add: word_le_nat_alt)
    from a have ge: "\<not> r < 6" and bk: "exBucketOf 7 r (Config exNetworkState) = 2"
      unfolding firstUncommittedInBucket_def uncommittedInBucket_def exCommittedBelow_def
      by simp_all
    from range[OF le ge] bk b show "r = 7" by auto
  }
qed

text \<open>
  Three buckets, one client with id 7 and low watermark 4, request numbers below 6
  committed: the tracker expects 8, 6 and 7 in buckets 0, 1 and 2.
\<close>

theorem newOutstandingReqs_nextReqNo_witness:
  "0 < sint (NumberOfBuckets (Config exNetworkState))
   \<and> distinct (map Id_client (Clients exNetworkState))
   \<and> Clients exNetworkState = [\<lparr>Id_client = 7, LowWatermark = 4\<rparr>]
   \<and> scast (NumberOfBuckets (Config exNetworkState)) = (3 :: u64)
   \<and> bucketsCoverWindow exBucketOf (Config exNetworkState) \<lparr>Id_client = 7, LowWatermark = 4\<rparr>
   \<and> uncommittedInBucket exCommittedBelow exBucketOf (Config exNetworkState)
        \<lparr>Id_client = 7, LowWatermark = 4\<rparr> 0 8
   \<and> bucketsRepeatUpTo exBucketOf (Config exNetworkState) \<lparr>Id_client = 7, LowWatermark = 4\<rparr> 8
   \<and> uncommittedInBucket exCommittedBelow exBucketOf (Config exNetworkState)
        \<lparr>Id_client = 7, LowWatermark = 4\<rparr> 1 6
   \<and> bucketsRepeatUpTo exBucketOf (Config exNetworkState) \<lparr>Id_client = 7, LowWatermark = 4\<rparr> 6
   \<and> uncommittedInBucket exCommittedBelow exBucketOf (Config exNetworkState)
        \<lparr>Id_client = 7, LowWatermark = 4\<rparr> 2 7
   \<and> bucketsRepeatUpTo exBucketOf (Config exNetworkState) \<lparr>Id_client = 7, LowWatermark = 4\<rparr> 7
   \<and> (\<exists>ao bo0 co0 bo1 co1 bo2 co2.
          newOutstandingReqs (\<lambda>(s :: nat) a (h :: nat). Return ([] :: nat list, h))
               exCommittedBelow exBucketOf [] exNetworkState 0 = Some (Return (ao, 0))
          \<and> buckets ao 0 = Some bo0 \<and> clients bo0 7 = Some co0 \<and> nextReqNo co0 = 8
          \<and> buckets ao 1 = Some bo1 \<and> clients bo1 7 = Some co1 \<and> nextReqNo co1 = 6
          \<and> buckets ao 2 = Some bo2 \<and> clients bo2 7 = Some co2 \<and> nextReqNo co2 = 7)"
proof -
  let ?cl = "\<lparr>Id_client = 7, LowWatermark = 4\<rparr> :: NetworkState_Client"
  have pos: "0 < sint (NumberOfBuckets (Config exNetworkState))"
    by (simp add: exNetworkState_def)
  have ids: "distinct (map Id_client (Clients exNetworkState))"
    by (simp add: exNetworkState_def)
  have cls: "Clients exNetworkState = [?cl]"
    by (simp add: exNetworkState_def)
  note nb = ex_buckets_number(2)
  have r8: "bucketsRepeatUpTo exBucketOf (Config exNetworkState) ?cl 8"
    by (rule ex_repeat) simp
  have r6: "bucketsRepeatUpTo exBucketOf (Config exNetworkState) ?cl 6"
    by (rule ex_repeat) simp
  have r7: "bucketsRepeatUpTo exBucketOf (Config exNetworkState) ?cl 7"
    by (rule ex_repeat) simp
  have cover: "\<forall>cl \<in> set (Clients exNetworkState).
         bucketsCoverWindow exBucketOf (Config exNetworkState) cl"
    unfolding cls using ex_cover by simp
  have ex: "\<forall>cl \<in> set (Clients exNetworkState). \<forall>b :: u64. b < scast (NumberOfBuckets (Config exNetworkState))
         \<longrightarrow> (\<exists>r. uncommittedInBucket exCommittedBelow exBucketOf (Config exNetworkState) cl b r
                 \<and> bucketsRepeatUpTo exBucketOf (Config exNetworkState) cl r)"
  proof (intro ballI allI impI)
    fix cl and b :: u64
    assume "cl \<in> set (Clients exNetworkState)"
      and "b < scast (NumberOfBuckets (Config exNetworkState))"
    then have cl: "cl = ?cl" and "b < 3" unfolding cls nb by simp_all
    then have "b = 0 \<or> b = 1 \<or> b = 2" using ex_below_three by blast
    then show "\<exists>r. uncommittedInBucket exCommittedBelow exBucketOf (Config exNetworkState) cl b r
                 \<and> bucketsRepeatUpTo exBucketOf (Config exNetworkState) cl r"
      unfolding cl using ex_uncommitted r8 r6 r7 by (elim disjE) blast+
  qed
  from newOutstandingReqs_nextReqNo
         [of exNetworkState exBucketOf exCommittedBelow
             "\<lambda>(s :: nat) a (h :: nat). Return ([] :: nat list, h)" "[]" 0, OF pos ids cover ex]
  obtain ao where r: "newOutstandingReqs (\<lambda>(s :: nat) a (h :: nat). Return ([] :: nat list, h))
               exCommittedBelow exBucketOf [] exNetworkState 0 = Some (Return (ao, 0))"
    and f: "\<forall>cl \<in> set (Clients exNetworkState). \<forall>b. b < scast (NumberOfBuckets (Config exNetworkState))
               \<longrightarrow> (\<exists>bo co. buckets ao b = Some bo \<and> clients bo (Id_client cl) = Some co
                      \<and> firstUncommittedInBucket exCommittedBelow exBucketOf
                            (Config exNetworkState) cl b (nextReqNo co))"
    by (elim exE conjE)
  have f': "\<And>b. b < 3 \<Longrightarrow> \<exists>bo co. buckets ao b = Some bo \<and> clients bo 7 = Some co
               \<and> firstUncommittedInBucket exCommittedBelow exBucketOf
                     (Config exNetworkState) ?cl b (nextReqNo co)"
    using f unfolding cls nb by simp
  from f'[of 0] obtain bo0 co0 where b0: "buckets ao 0 = Some bo0" "clients bo0 7 = Some co0"
    "firstUncommittedInBucket exCommittedBelow exBucketOf (Config exNetworkState) ?cl 0 (nextReqNo co0)"
    by auto
  from f'[of 1] obtain bo1 co1 where b1: "buckets ao 1 = Some bo1" "clients bo1 7 = Some co1"
    "firstUncommittedInBucket exCommittedBelow exBucketOf (Config exNetworkState) ?cl 1 (nextReqNo co1)"
    by auto
  from f'[of 2] obtain bo2 co2 where b2: "buckets ao 2 = Some bo2" "clients bo2 7 = Some co2"
    "firstUncommittedInBucket exCommittedBelow exBucketOf (Config exNetworkState) ?cl 2 (nextReqNo co2)"
    by auto
  have n0: "nextReqNo co0 = 8" using b0(3) by (rule ex_first_values(1))
  have n1: "nextReqNo co1 = 6" using b1(3) by (rule ex_first_values(2))
  have n2: "nextReqNo co2 = 7" using b2(3) by (rule ex_first_values(3))
  from r b0(1,2) n0 b1(1,2) n1 b2(1,2) n2 have
    "\<exists>ao bo0 co0 bo1 co1 bo2 co2.
          newOutstandingReqs (\<lambda>(s :: nat) a (h :: nat). Return ([] :: nat list, h))
               exCommittedBelow exBucketOf [] exNetworkState 0 = Some (Return (ao, 0))
          \<and> buckets ao 0 = Some bo0 \<and> clients bo0 7 = Some co0 \<and> nextReqNo co0 = 8
          \<and> buckets ao 1 = Some bo1 \<and> clients bo1 7 = Some co1 \<and> nextReqNo co1 = 6
          \<and> buckets ao 2 = Some bo2 \<and> clients bo2 7 = Some co2 \<and> nextReqNo co2 = 7"
    by blast
  with pos ids cls nb ex_cover ex_uncommitted(1) r8 ex_uncommitted(2) r6 ex_uncommitted(3) r7
  show ?thesis by (intro conjI)
qed

section \<open>The tracker on concrete inputs\<close>

lemma exSkip:
  "skipPreviouslyCommitted exCommitted \<lparr>nextReqNo = 1, numBuckets = 1, client = exClient\<rparr>
     = Some \<lparr>nextReqNo = 2, numBuckets = 1, client = exClient\<rparr>"
  by (subst skipPreviouslyCommitted.simps, simp add: exCommitted_def,
      subst skipPreviouslyCommitted.simps, simp add: exCommitted_def)

lemma exStrideReturns: "skipsReturn exCommittedTwo exStrideBucket"
  unfolding skipsReturn_def
proof (intro allI impI)
  fix cid co and n :: u64
  assume "clients exStrideBucket cid = Some co"
  then have nb: "numBuckets co = 2" by (auto simp: exStrideBucket_def split: if_splits)
  show "\<exists>k. \<not> exCommittedTwo (n + of_nat k * numBuckets co) (client co)"
  proof (cases "n = 2")
    case True
    have "\<not> exCommittedTwo (n + of_nat 1 * numBuckets co) (client co)"
      unfolding nb True by (simp add: exCommittedTwo_def)
    then show ?thesis by blast
  next
    case False
    then have "\<not> exCommittedTwo (n + of_nat 0 * numBuckets co) (client co)"
      by (simp add: exCommittedTwo_def)
    then show ?thesis by blast
  qed
qed

lemma exFree:
  "nextFree exCommittedTwo \<lparr>nextReqNo = 0, numBuckets = 2, client = exClient\<rparr> 2 = 4"
  "nextFree exCommittedTwo \<lparr>nextReqNo = 0, numBuckets = 2, client = exClient\<rparr> 6 = 6"
proof -
  let ?co = "\<lparr>nextReqNo = 0, numBuckets = 2, client = exClient\<rparr> :: unit clientOutstandingReqs"
  have "nextFree exCommittedTwo ?co 2 = 2 + of_nat 1 * numBuckets ?co"
    by (rule nextFree_steps) (simp_all add: exCommittedTwo_def)
  then show "nextFree exCommittedTwo ?co 2 = 4" by simp
  have "nextFree exCommittedTwo ?co 6 = 6 + of_nat 0 * numBuckets ?co"
    by (rule nextFree_steps) (simp_all add: exCommittedTwo_def)
  then show "nextFree exCommittedTwo ?co 6 = 6" by simp
qed

lemma exExpected:
  "expectedReqNo exCommittedTwo exStrideBucket [] 7 = Some 0"
  "expectedReqNo exCommittedTwo exStrideBucket [exAck 0 [1]] 7 = Some 4"
  "expectedReqNo exCommittedTwo exStrideBucket [exAck 0 [1], exAck 4 [2]] 7 = Some 6"
  by (simp_all add: expectedReqNo_def nextExpected_def exStrideBucket_def exAck_def exFree)

lemma exMatches: "batchMatches exCommittedTwo exStrideBucket [exAck 0 [1], exAck 4 [2]]"
  unfolding batchMatches_def
proof (intro allI impI)
  fix k assume "k < length [exAck 0 [1], exAck 4 [2]]"
  then have "k = 0 \<or> k = 1" by auto
  then show "expectedReqNo exCommittedTwo exStrideBucket (take k [exAck 0 [1], exAck 4 [2]])
               (ClientId ([exAck 0 [1], exAck 4 [2]] ! k))
             = Some (ReqNo ([exAck 0 [1], exAck 4 [2]] ! k))"
  proof
    assume "k = 0"
    then show ?thesis using exExpected(1) by (simp add: exAck_def)
  next
    assume "k = 1"
    then show ?thesis using exExpected(2) by (simp add: exAck_def)
  qed
qed

lemma exRepeated: "\<not> batchMatches exCommittedTwo exStrideBucket [exAck 0 [1], exAck 0 [2]]"
proof
  assume "batchMatches exCommittedTwo exStrideBucket [exAck 0 [1], exAck 0 [2]]"
  then have "\<forall>k < length [exAck 0 [1], exAck 0 [2]].
               expectedReqNo exCommittedTwo exStrideBucket (take k [exAck 0 [1], exAck 0 [2]])
                 (ClientId ([exAck 0 [1], exAck 0 [2]] ! k))
               = Some (ReqNo ([exAck 0 [1], exAck 0 [2]] ! k))"
    unfolding batchMatches_def .
  then have "1 < length [exAck 0 [1], exAck 0 [2]] \<longrightarrow>
             expectedReqNo exCommittedTwo exStrideBucket (take 1 [exAck 0 [1], exAck 0 [2]])
               (ClientId ([exAck 0 [1], exAck 0 [2]] ! 1))
             = Some (ReqNo ([exAck 0 [1], exAck 0 [2]] ! 1))"
    by (rule spec)
  then have "expectedReqNo exCommittedTwo exStrideBucket (take 1 [exAck 0 [1], exAck 0 [2]])
               (ClientId ([exAck 0 [1], exAck 0 [2]] ! 1))
             = Some (ReqNo ([exAck 0 [1], exAck 0 [2]] ! 1))"
    by simp
  then show False using exExpected(2) by (simp add: exAck_def)
qed

lemma exOutstanding:
  "outstandingDigests (correctRequests exVouched) [exAck 0 [1], exAck 4 [2]] = {[2]}"
  by (auto simp: outstandingDigests_def exVouched_def exAck_def)

lemma exTrackerAfter:
  "trackerAfter exCommittedTwo 0 (3 :: nat) [exAck 0 [1], exAck 4 [2]] exVouched
     = exVouched\<lparr>buckets := [0 \<mapsto> \<lparr>clients = [7 \<mapsto> \<lparr>nextReqNo = 6, numBuckets = 2,
                                                        client = exClient\<rparr>]\<rparr>],
                 correctRequests := Map.empty,
                 outstandingRequests := [[2] \<mapsto> 3]\<rparr>"
proof -
  have b: "buckets exVouched 0 = Some exStrideBucket" by (simp add: exVouched_def)
  have c: "clientsAfter exCommittedTwo exStrideBucket [exAck 0 [1], exAck 4 [2]]
             = \<lparr>clients = [7 \<mapsto> \<lparr>nextReqNo = 6, numBuckets = 2, client = exClient\<rparr>]\<rparr>"
    by (auto simp: clientsAfter_def exStrideBucket_def fun_eq_iff nextExpected_def exAck_def exFree)
  have cr: "(\<lambda>d. if d \<in> Digest ` set [exAck 0 [1], exAck 4 [2]] then None
                  else correctRequests exVouched d) = Map.empty"
    by (auto simp: fun_eq_iff exVouched_def exAck_def)
  have out: "(\<lambda>d. if d \<in> {[2]} then Some (3 :: nat) else outstandingRequests exVouched d)
               = [[2] \<mapsto> 3]"
    by (auto simp: fun_eq_iff exVouched_def)
  have bs: "(buckets exVouched)(0 \<mapsto> \<lparr>clients = [7 \<mapsto> \<lparr>nextReqNo = 6, numBuckets = 2,
                                                          client = exClient\<rparr>]\<rparr>)
              = [0 \<mapsto> \<lparr>clients = [7 \<mapsto> \<lparr>nextReqNo = 6, numBuckets = 2, client = exClient\<rparr>]\<rparr>]"
    by (simp add: exVouched_def)
  show ?thesis
    unfolding trackerAfter_def b option.case c exOutstanding cr out bs ..
qed

text \<open>
  With stride 2 and request number 2 committed, request number 4 is expected after 0.
  The batch of request numbers 0 and 0 is rejected. The batch of request numbers 0 and 4
  is allocated with digest \<open>[2]\<close> outstanding; digest \<open>[1]\<close> was vouched correct.
\<close>

theorem applyAcks_rejects_or_allocates_witness:
  "buckets exVouched 0 = Some exStrideBucket
   \<and> skipsReturn exCommittedTwo exStrideBucket
   \<and> \<not> batchMatches exCommittedTwo exStrideBucket [exAck 0 [1], exAck 0 [2]]
   \<and> (\<exists>ao' err. applyAcks exCommittedTwo exRecord 0 (3 :: nat) [exAck 0 [1], exAck 0 [2]]
                    exVouched 0 = Some (Return (ao', 0, Inl err)))
   \<and> batchMatches exCommittedTwo exStrideBucket [exAck 0 [1], exAck 4 [2]]
   \<and> applyAcks exCommittedTwo exRecord 0 (3 :: nat) [exAck 0 [1], exAck 4 [2]] exVouched 0
       = Some (Return (exVouched\<lparr>buckets := [0 \<mapsto> \<lparr>clients = [7 \<mapsto> \<lparr>nextReqNo = 6,
                                     numBuckets = 2, client = exClient\<rparr>]\<rparr>],
                                 correctRequests := Map.empty,
                                 outstandingRequests := [[2] \<mapsto> 3]\<rparr>,
                       Suc 0, Inr [{[2]}]))"
proof -
  have b: "buckets exVouched 0 = Some exStrideBucket" by (simp add: exVouched_def)
  note t = applyAcks_rejects_or_allocates[OF b exStrideReturns]
  from t[of "[exAck 0 [1], exAck 0 [2]]" exRecord 3 0, THEN conjunct1, rule_format, OF exRepeated]
  have r1: "\<exists>ao' err. applyAcks exCommittedTwo exRecord 0 (3 :: nat) [exAck 0 [1], exAck 0 [2]]
                    exVouched 0 = Some (Return (ao', 0, Inl err))" .
  from t[of "[exAck 0 [1], exAck 4 [2]]" exRecord 3 0, THEN conjunct2, rule_format, OF exMatches]
  have r2: "applyAcks exCommittedTwo exRecord 0 (3 :: nat) [exAck 0 [1], exAck 4 [2]] exVouched 0
       = Some (Return (exVouched\<lparr>buckets := [0 \<mapsto> \<lparr>clients = [7 \<mapsto> \<lparr>nextReqNo = 6,
                                     numBuckets = 2, client = exClient\<rparr>]\<rparr>],
                                 correctRequests := Map.empty,
                                 outstandingRequests := [[2] \<mapsto> 3]\<rparr>,
                       Suc 0, Inr [{[2]}]))"
    unfolding exOutstanding exTrackerAfter by (simp add: exRecord_def bindR_def)
  from b exStrideReturns exRepeated r1 exMatches r2 show ?thesis by (intro conjI)
qed

text \<open>
  The batch of request numbers 0, 4, 5, 6 fails at 5, where 6 is expected. The tracker
  returned expects 6, has lost the voucher for digest \<open>[1]\<close> and holds digest \<open>[2]\<close> as
  outstanding.
\<close>

theorem applyAcks_error_keeps_writes_witness:
  "buckets exVouched 0 = Some exStrideBucket
   \<and> skipsReturn exCommittedTwo exStrideBucket
   \<and> batchMatches exCommittedTwo exStrideBucket [exAck 0 [1], exAck 4 [2]]
   \<and> expectedReqNo exCommittedTwo exStrideBucket [exAck 0 [1], exAck 4 [2]]
        (ClientId (exAck 5 [3])) \<noteq> Some (ReqNo (exAck 5 [3]))
   \<and> correctRequests exVouched [1] = Some (exAck 0 [1])
   \<and> applyAcks exCommittedTwo exRecord 0 (3 :: nat)
        ([exAck 0 [1], exAck 4 [2]] @ exAck 5 [3] # [exAck 6 [4]]) exVouched 0
       = Some (Return (exVouched\<lparr>buckets := [0 \<mapsto> \<lparr>clients = [7 \<mapsto> \<lparr>nextReqNo = 6,
                                     numBuckets = 2, client = exClient\<rparr>]\<rparr>],
                                 correctRequests := Map.empty,
                                 outstandingRequests := [[2] \<mapsto> 3]\<rparr>,
                       0, Inl (UnexpectedReqNo 7 0 6 5)))"
proof -
  have b: "buckets exVouched 0 = Some exStrideBucket" by (simp add: exVouched_def)
  have e: "expectedReqNo exCommittedTwo exStrideBucket [exAck 0 [1], exAck 4 [2]]
             (ClientId (exAck 5 [3])) \<noteq> Some (ReqNo (exAck 5 [3]))"
    using exExpected(3) by (simp add: exAck_def)
  have v: "correctRequests exVouched [1] = Some (exAck 0 [1])" by (simp add: exVouched_def)
  have rj: "rejection exCommittedTwo 0 exStrideBucket [exAck 0 [1], exAck 4 [2]] (exAck 5 [3])
              = UnexpectedReqNo 7 0 6 5"
    using exExpected(3) by (simp add: rejection_def exAck_def)
  from applyAcks_error_keeps_writes[OF b exStrideReturns exMatches e,
      of exRecord 3 "[exAck 6 [4]]" 0, THEN conjunct1]
  have r: "applyAcks exCommittedTwo exRecord 0 (3 :: nat)
        ([exAck 0 [1], exAck 4 [2]] @ exAck 5 [3] # [exAck 6 [4]]) exVouched 0
       = Some (Return (exVouched\<lparr>buckets := [0 \<mapsto> \<lparr>clients = [7 \<mapsto> \<lparr>nextReqNo = 6,
                                     numBuckets = 2, client = exClient\<rparr>]\<rparr>],
                                 correctRequests := Map.empty,
                                 outstandingRequests := [[2] \<mapsto> 3]\<rparr>,
                       0, Inl (UnexpectedReqNo 7 0 6 5)))"
    unfolding exTrackerAfter rj .
  from b exStrideReturns exMatches e v r show ?thesis by (intro conjI)
qed


lemma exAdvance:
  "advanceRequests exSatisfy exPending 0
     = Return ([''satisfied''],
               exPending\<lparr>availableIterator := [],
                          correctRequests := [[9] \<mapsto> exAck 0 [9], [8] \<mapsto> exAck 1 [8]],
                          outstandingRequests := Map.empty\<rparr>,
               Suc 0, [(3, exAck 0 [9])])"
  by (simp add: advanceRequests_def advanceRequestsBody_def exPending_def exAck_def
        exSatisfy_def bindR_def Let_def fun_upd_twist)


text \<open>
  The two maps of the example tracker share no key before and after both operations.
\<close>

theorem digest_maps_stay_disjoint_witness:
  "digestMapsDisjoint exPending
   \<and> advanceRequests exSatisfy exPending 0
       = Return ([''satisfied''],
               exPending\<lparr>availableIterator := [],
                          correctRequests := [[9] \<mapsto> exAck 0 [9], [8] \<mapsto> exAck 1 [8]],
                          outstandingRequests := Map.empty\<rparr>,
               Suc 0, [(3, exAck 0 [9])])
   \<and> digestMapsDisjoint (exPending\<lparr>availableIterator := [],
                          correctRequests := [[9] \<mapsto> exAck 0 [9], [8] \<mapsto> exAck 1 [8]],
                          outstandingRequests := Map.empty\<rparr>)
   \<and> (\<exists>ao2 err. applyAcks exCommitted exAllocate 0 4 [exAck 0 [1], exAck 1 [2]] exPending 0
                   = Some (Return (ao2, 0, Inl err)) \<and> digestMapsDisjoint ao2)"
proof -
  have d: "digestMapsDisjoint exPending"
    by (simp add: digestMapsDisjoint_def exPending_def)
  have b: "buckets exPending 0 = Some exBucket" by (simp add: exPending_def)
  have l: "applyAcksLoop exCommitted 0 4 [exAck 0 [1]]
        (exBucket, correctRequests exPending, outstandingRequests exPending, {})
       = Some ((\<lparr>clients = [7 \<mapsto> \<lparr>nextReqNo = 2, numBuckets = 1, client = exClient\<rparr>]\<rparr>,
                Map.empty, [[9] \<mapsto> 3, [1] \<mapsto> 4], {[1]}), None)"
    by (simp add: applyAcksBody_def exAck_def exBucket_def exSkip Let_def exPending_def)
  have m: "ackMismatch \<lparr>clients = [7 \<mapsto> \<lparr>nextReqNo = 2, numBuckets = 1, client = exClient\<rparr>]\<rparr>
        (exAck 1 [2])"
    by (simp add: ackMismatch_def exAck_def)
  from applyAcks_on_error[OF b l m, of exAllocate "[]" 0] obtain ao2 err where
    r: "applyAcks exCommitted exAllocate 0 4 [exAck 0 [1], exAck 1 [2]] exPending 0
          = Some (Return (ao2, 0, Inl err))" by auto
  from digest_maps_stay_disjoint[OF d, of exSatisfy 0 "[''satisfied'']" _ "Suc 0"
      "[(3, exAck 0 [9])]" exCommitted exAllocate 0 4 "[exAck 0 [1], exAck 1 [2]]" ao2 0 "Inl err"]
    exAdvance r d
  show ?thesis by blast
qed

section \<open>The state machine on concrete inputs\<close>

lemma exInterval: "(scast (5 :: 32 word) :: u64) = 5"
  by simp

lemma exStepTrace:
  "fst (applyEvent 5 exOps (StateEvent_Step 2 (Msg_Checkpoint ())) exMachine)
     = [Call ''checkpointTracker.step'' [2],
        Call ''checkpointTracker.garbageCollect'' [],
        Call ''persisted.truncate'' [15], Call ''batchTracker.truncate'' [10],
        Call ''epochTracker.moveLowWatermark'' [15],
        Call ''commitState.drain'' [], Call ''epochTracker.advanceState'' [],
        Call ''commitState.drain'' [], Call ''epochTracker.advanceState'' []]"
  by code_simp

text \<open>
  A checkpoint message that makes the checkpoint tracker collectable: the block runs
  once, the loop twice.
\<close>

theorem garbage_collection_at_most_once_witness:
  "fst (applyEvent 5 exOps (StateEvent_Step 2 (Msg_Checkpoint ())) exMachine)
     = [Call ''checkpointTracker.step'' [2]] @ Call ''checkpointTracker.garbageCollect'' []
        # [Call ''persisted.truncate'' [15], Call ''batchTracker.truncate'' [10],
           Call ''epochTracker.moveLowWatermark'' [15],
           Call ''commitState.drain'' [], Call ''epochTracker.advanceState'' [],
           Call ''commitState.drain'' [], Call ''epochTracker.advanceState'' []]
   \<and> length (callsOf ''persisted.truncate''
         [Call ''persisted.truncate'' [15], Call ''batchTracker.truncate'' [10],
          Call ''epochTracker.moveLowWatermark'' [15],
          Call ''commitState.drain'' [], Call ''epochTracker.advanceState'' [],
          Call ''commitState.drain'' [], Call ''epochTracker.advanceState'' []]) \<le> 1
   \<and> fst (applyEvent 5 exOps (StateEvent_Step 2 (Msg_Checkpoint ())) exMachine)
     = [Call ''checkpointTracker.step'' [2], Call ''checkpointTracker.garbageCollect'' [],
        Call ''persisted.truncate'' [15], Call ''batchTracker.truncate'' [10],
        Call ''epochTracker.moveLowWatermark'' [15]] @ Call ''commitState.drain'' []
        # [Call ''epochTracker.advanceState'' [],
           Call ''commitState.drain'' [], Call ''epochTracker.advanceState'' []]
   \<and> callName ` set [Call ''epochTracker.advanceState'' [],
           Call ''commitState.drain'' [], Call ''epochTracker.advanceState'' []]
         \<subseteq> {''commitState.drain'', ''epochTracker.advanceState''}
   \<and> length (callsOf ''checkpointTracker.garbageCollect''
         (fst (applyEvent 5 exOps (StateEvent_Step 2 (Msg_Checkpoint ())) exMachine))) \<le> 1"
proof -
  have a: "fst (applyEvent 5 exOps (StateEvent_Step 2 (Msg_Checkpoint ())) exMachine)
     = [Call ''checkpointTracker.step'' [2]] @ Call ''checkpointTracker.garbageCollect'' []
        # [Call ''persisted.truncate'' [15], Call ''batchTracker.truncate'' [10],
           Call ''epochTracker.moveLowWatermark'' [15],
           Call ''commitState.drain'' [], Call ''epochTracker.advanceState'' [],
           Call ''commitState.drain'' [], Call ''epochTracker.advanceState'' []]"
    unfolding exStepTrace by simp
  have b: "fst (applyEvent 5 exOps (StateEvent_Step 2 (Msg_Checkpoint ())) exMachine)
     = [Call ''checkpointTracker.step'' [2], Call ''checkpointTracker.garbageCollect'' [],
        Call ''persisted.truncate'' [15], Call ''batchTracker.truncate'' [10],
        Call ''epochTracker.moveLowWatermark'' [15]] @ Call ''commitState.drain'' []
        # [Call ''epochTracker.advanceState'' [],
           Call ''commitState.drain'' [], Call ''epochTracker.advanceState'' []]"
    unfolding exStepTrace by simp
  from garbage_collection_at_most_once[of 5 exOps "StateEvent_Step 2 (Msg_Checkpoint ())" exMachine]
    a b
  show ?thesis by blast
qed

lemma exStale:
  "processCheckpoints exOps [exResult 3] exComponents = ([], Some (Return ([], exComponents)))"
  by (rule processCheckpoints_stale) (simp add: exResult_def exOps_def exComponents_def)

text \<open>
  With low watermark 10 and interval 5: the result at 3 is skipped, the event with
  results at 3 and 12 fails the assertion, and the event with results at 3 and 15 calls
  \<open>commitState.applyCheckpointResult\<close> and then \<open>clientTracker.allocate\<close>.
\<close>

theorem addResults_checkpoint_cases_witness:
  "state exMachine = smInitialized \<and> components exMachine = Some exComponents
   \<and> processCheckpoints exOps [exResult 3] exComponents = ([], Some (Return ([], exComponents)))
   \<and> CheckpointResult.SeqNo (exResult 3) < cs_lowWatermark exOps (world exComponents)
   \<and> applyEvent 5 exOps (StateEvent_AddResults (exResults [exResult 3, exResult 15])) exMachine
       = applyEvent 5 exOps (StateEvent_AddResults (exResults [exResult 15])) exMachine
   \<and> \<not> CheckpointResult.SeqNo (exResult 12) < cs_lowWatermark exOps (world exComponents)
   \<and> CheckpointResult.SeqNo (exResult 12)
       \<noteq> cs_lowWatermark exOps (world exComponents)
           + scast (cs_CheckpointInterval exOps (world exComponents))
   \<and> (\<exists>text. applyEvent 5 exOps (StateEvent_AddResults (exResults [exResult 3, exResult 12]))
                  exMachine = ([], Some (Panic (AssertionFailed text))))
   \<and> \<not> CheckpointResult.SeqNo (exResult 15) < cs_lowWatermark exOps (world exComponents)
   \<and> CheckpointResult.SeqNo (exResult 15)
       = cs_lowWatermark exOps (world exComponents)
           + scast (cs_CheckpointInterval exOps (world exComponents))
   \<and> (\<exists>tr'' res. applyEvent 5 exOps (StateEvent_AddResults (exResults [exResult 3, exResult 15]))
                     exMachine
                   = (Call ''commitState.applyCheckpointResult'' [15]
                        # Call ''clientTracker.allocate'' [15] # tr'', res))"
proof -
  have lw: "cs_lowWatermark exOps (world exComponents) = 10"
    by (simp add: exOps_def exComponents_def)
  have iv: "scast (cs_CheckpointInterval exOps (world exComponents)) = (5 :: u64)"
    by (simp add: exOps_def)
  have i: "state exMachine = smInitialized" by (simp add: exMachine_def)
  have c: "components exMachine = Some exComponents" by (simp add: exMachine_def)
  have nil: "processCheckpoints exOps [] exComponents = ([], Some (Return ([], exComponents)))"
    by (simp add: returnP_def)
  have h1: "CheckpointResult.SeqNo (exResult 3) < cs_lowWatermark exOps (world exComponents)"
    unfolding lw by (simp add: exResult_def)
  have h2: "\<not> CheckpointResult.SeqNo (exResult 12) < cs_lowWatermark exOps (world exComponents)
     \<and> CheckpointResult.SeqNo (exResult 12)
       \<noteq> cs_lowWatermark exOps (world exComponents)
           + scast (cs_CheckpointInterval exOps (world exComponents))"
    unfolding lw iv by (simp add: exResult_def)
  have h3: "\<not> CheckpointResult.SeqNo (exResult 15) < cs_lowWatermark exOps (world exComponents)
     \<and> CheckpointResult.SeqNo (exResult 15)
       = cs_lowWatermark exOps (world exComponents)
           + scast (cs_CheckpointInterval exOps (world exComponents))"
    unfolding lw iv by (simp add: exResult_def)
  have s1: "Checkpoints (exResults [exResult 3, exResult 15]) = [] @ exResult 3 # [exResult 15]"
    by (simp add: exResults_def)
  have s2: "Checkpoints (exResults [exResult 3, exResult 12]) = [exResult 3] @ exResult 12 # []"
    by (simp add: exResults_def)
  have s3: "Checkpoints (exResults [exResult 3, exResult 15]) = [exResult 3] @ exResult 15 # []"
    by (simp add: exResults_def)
  note t1 = addResults_checkpoint_cases[where fuel = 5, OF i c s1 nil]
  from t1[THEN conjunct2, THEN conjunct1, rule_format, OF h1]
  have r1: "applyEvent 5 exOps (StateEvent_AddResults (exResults [exResult 3, exResult 15])) exMachine
       = applyEvent 5 exOps (StateEvent_AddResults (exResults [exResult 15])) exMachine"
    by (simp add: exResults_def)
  note t2 = addResults_checkpoint_cases[where fuel = 5, OF i c s2 exStale]
  from t2[THEN conjunct2, THEN conjunct2, THEN conjunct1, rule_format, OF h2]
  have r2: "\<exists>text. applyEvent 5 exOps (StateEvent_AddResults (exResults [exResult 3, exResult 12]))
                  exMachine = ([], Some (Panic (AssertionFailed text)))" .
  note t3 = addResults_checkpoint_cases[where fuel = 5, OF i c s3 exStale]
  from t3[THEN conjunct2, THEN conjunct2, THEN conjunct2, rule_format, OF h3]
  obtain tr' res where
    e: "applyEvent 5 exOps (StateEvent_AddResults (exResults [exResult 3, exResult 15])) exMachine
          = ([] @ Call ''commitState.applyCheckpointResult'' [CheckpointResult.SeqNo (exResult 15)]
                # tr', res)"
    and adv: "\<forall>acts' c''. cs_applyCheckpointResult exOps
                 (et_activeEpochConfig exOps (world exComponents)) (exResult 15) exComponents
                   = Return (acts', c'')
                 \<and> cs_stopAtSeqNo exOps (world exComponents) < cs_stopAtSeqNo exOps (world c'')
               \<longrightarrow> (\<exists>tr''. tr' = Call ''clientTracker.allocate''
                                      [CheckpointResult.SeqNo (exResult 15)] # tr'')"
    by (elim exE conjE)
  have "cs_applyCheckpointResult exOps
          (et_activeEpochConfig exOps (world exComponents)) (exResult 15) exComponents
          = Return ([], exComponents\<lparr>world := (world exComponents)\<lparr>exStopAtSeqNo := 20\<rparr>\<rparr>)
        \<and> cs_stopAtSeqNo exOps (world exComponents)
            < cs_stopAtSeqNo exOps
                (world (exComponents\<lparr>world := (world exComponents)\<lparr>exStopAtSeqNo := 20\<rparr>\<rparr>))"
    by (simp add: exOps_def exResult_def exComponents_def)
  with adv obtain tr'' where
    "tr' = Call ''clientTracker.allocate'' [CheckpointResult.SeqNo (exResult 15)] # tr''"
    by blast
  with e have r3: "\<exists>tr'' res. applyEvent 5 exOps
                     (StateEvent_AddResults (exResults [exResult 3, exResult 15])) exMachine
                   = (Call ''commitState.applyCheckpointResult'' [15]
                        # Call ''clientTracker.allocate'' [15] # tr'', res)"
    by (simp add: exResult_def)
  from i c exStale h1 r1 h2[THEN conjunct1] h2[THEN conjunct2] r2
    h3[THEN conjunct1] h3[THEN conjunct2] r3
  show ?thesis by (intro conjI)
qed

section \<open>Acknowledgement events\<close>

text \<open>
  Claim C8. \<open>ActionsReceived\<close> and \<open>ClientActionsReceived\<close> return from inside the
  \<open>switch\<close>: no component is called, the action batch is empty and the state machine is
  the one given, whatever its state. Applying either event again therefore gives the
  empty batch again.
\<close>

theorem actions_received_is_noop:
  "applyEvent fuel ops StateEvent_ActionsReceived sm = ([], Some (Return ([], sm)))
   \<and> applyEvent fuel ops StateEvent_ClientActionsReceived sm = ([], Some (Return ([], sm)))
   \<and> (case applyEvent fuel ops StateEvent_ActionsReceived sm of
         (tr, Some (Return (acts, sm'))) \<Rightarrow>
           applyEvent fuel ops StateEvent_ActionsReceived sm' = ([], Some (Return ([], sm)))
       | _ \<Rightarrow> False)
   \<and> (case applyEvent fuel ops StateEvent_ClientActionsReceived sm of
         (tr, Some (Return (acts, sm'))) \<Rightarrow>
           applyEvent fuel ops StateEvent_ClientActionsReceived sm' = ([], Some (Return ([], sm)))
       | _ \<Rightarrow> False)"
  by (simp add: applyEvent_def)

text \<open>
  On the state machine with stub components both events leave it as it is.
\<close>

theorem actions_received_is_noop_witness:
  "applyEvent 5 exOps StateEvent_ActionsReceived exMachine = ([], Some (Return ([], exMachine)))
   \<and> applyEvent 5 exOps StateEvent_ClientActionsReceived exMachine
       = ([], Some (Return ([], exMachine)))"
  using actions_received_is_noop [of 5 exOps exMachine] by simp

end
